theory Spec2Isabelle
  imports Main "HOL-Library.Monad_Syntax"
begin

unbundle bit_operations_syntax

section \<open>Bytes, C strings and reads through a pointer\<close>

text \<open>
  A byte (\<^verbatim>\<open>unsigned char\<close>) is a \<^typ>\<open>char\<close>, read as a number by \<open>of_char\<close>.
  A pointer into a buffer is the list of the bytes from the pointer to the end of the
  buffer: \<^verbatim>\<open>s + n\<close> is \<open>drop n s\<close>. A Lua string of length \<open>len\<close> is a buffer of
  \<open>len + 1\<close> bytes whose last byte is NUL. Nothing is known about the memory after the
  buffer, so a read there has no value: \<open>peek\<close> gives \<open>None\<close>, and every function that
  reads carries that on as its own failure.
\<close>

type_synonym byte = char
type_synonym bytes = "char list"

abbreviation NUL :: byte where "NUL \<equiv> CHR 0x00"
abbreviation DQUOTE :: byte where "DQUOTE \<equiv> CHR 0x22"
abbreviation BSLASH :: byte where "BSLASH \<equiv> CHR 0x5C"

definition peek :: "bytes \<Rightarrow> nat \<Rightarrow> byte option" where
  "peek s i = (if i < length s then Some (s ! i) else None)"

section \<open>The UTF-8 validator\<close>

text \<open>\<^verbatim>\<open>#define is_utf8tail(c) (((c) & 0xC0) == 0x80)\<close>\<close>

definition is_utf8tail :: "byte \<Rightarrow> bool" where
  "is_utf8tail c = ((of_char c :: nat) AND 0xC0 = 0x80)"

text \<open>\<^verbatim>\<open>is_utf8firstb\<close>: the four case ranges of the switch, then the default.\<close>

definition is_utf8firstb :: "byte \<Rightarrow> bool" where
  "is_utf8firstb b =
     (let n = (of_char b :: nat) in
      if n \<le> 0x7F then True
      else if 0xC2 \<le> n \<and> n \<le> 0xDF then True
      else if 0xE0 \<le> n \<and> n \<le> 0xEF then True
      else if 0xF0 \<le> n \<and> n \<le> 0xF4 then True
      else False)"

text \<open>
  The bodies of the cases of \<^verbatim>\<open>utf8len\<close>. The two-byte case tests \<^verbatim>\<open>s[1]\<close>; the
  three-byte cases differ only in the test on \<^verbatim>\<open>s[1]\<close> (\<open>snd_ok\<close>), and so do the
  four-byte cases. \<^verbatim>\<open>&&\<close> reads its right operand only when the left one holds, and
  the \<^verbatim>\<open>else if\<close> chain reads \<^verbatim>\<open>s[2]\<close> and \<^verbatim>\<open>s[3]\<close> only when it gets there.
\<close>

definition utf8len2 :: "bytes \<Rightarrow> int option" where
  "utf8len2 s = do {
     b1 \<leftarrow> peek s 1;
     if is_utf8tail b1 then Some 2
     else if is_utf8firstb b1 then Some (- 1)
     else Some (- 2)
   }"

definition utf8len3 :: "(byte \<Rightarrow> bool) \<Rightarrow> bytes \<Rightarrow> int option" where
  "utf8len3 snd_ok s = do {
     b1 \<leftarrow> peek s 1;
     ok \<leftarrow> (if snd_ok b1 then do { b2 \<leftarrow> peek s 2; Some (is_utf8tail b2) } else Some False);
     if ok then Some 3
     else if is_utf8firstb b1 then Some (- 1)
     else do {
       b2 \<leftarrow> peek s 2;
       if is_utf8firstb b2 then Some (- 2) else Some (- 3)
     }
   }"

definition utf8len4 :: "(byte \<Rightarrow> bool) \<Rightarrow> bytes \<Rightarrow> int option" where
  "utf8len4 snd_ok s = do {
     b1 \<leftarrow> peek s 1;
     ok \<leftarrow> (if snd_ok b1 then do {
              b2 \<leftarrow> peek s 2;
              if is_utf8tail b2 then do { b3 \<leftarrow> peek s 3; Some (is_utf8tail b3) }
              else Some False }
            else Some False);
     if ok then Some 4
     else if is_utf8firstb b1 then Some (- 1)
     else do {
       b2 \<leftarrow> peek s 2;
       if is_utf8firstb b2 then Some (- 2)
       else do {
         b3 \<leftarrow> peek s 3;
         if is_utf8firstb b3 then Some (- 3) else Some (- 4)
       }
     }
   }"

definition byte_in :: "nat \<Rightarrow> nat \<Rightarrow> byte \<Rightarrow> bool" where
  "byte_in lo hi c = (lo \<le> (of_char c :: nat) \<and> (of_char c :: nat) \<le> hi)"

text \<open>\<^verbatim>\<open>utf8len\<close>: the switch on \<^verbatim>\<open>*s\<close>, its cases in the order of the source.\<close>

definition utf8len :: "bytes \<Rightarrow> int option" where
  "utf8len s = do {
     b0 \<leftarrow> peek s 0;
     let n = (of_char b0 :: nat) in
     if n \<le> 0x7F then Some 1
     else if n \<le> 0xC1 then Some (- 1)
     else if n \<le> 0xDF then utf8len2 s
     else if n = 0xE0 then utf8len3 (byte_in 0xA0 0xBF) s
     else if n \<le> 0xEC then utf8len3 is_utf8tail s
     else if n = 0xED then utf8len3 (byte_in 0x80 0x9F) s
     else if n \<le> 0xEF then utf8len3 is_utf8tail s
     else if n = 0xF0 then utf8len4 (byte_in 0x90 0xBF) s
     else if n \<le> 0xF3 then utf8len4 is_utf8tail s
     else if n = 0xF4 then utf8len4 (byte_in 0x80 0x8F) s
     else Some (- 1)
   }"


section \<open>The quoted-string encoder\<close>

text \<open>
  \<^verbatim>\<open>iscntrl\<close> and \<^verbatim>\<open>isdigit\<close> of \<^verbatim>\<open>ctype.h\<close> in the "C" locale. They are applied
  to single bytes of a sequence of length one only, that is to bytes \<open>00..7F\<close>.
\<close>

definition iscntrl :: "byte \<Rightarrow> bool" where
  "iscntrl c = ((of_char c :: nat) < 0x20 \<or> (of_char c :: nat) = 0x7F)"

definition isdigit :: "byte \<Rightarrow> bool" where
  "isdigit c = (0x30 \<le> (of_char c :: nat) \<and> (of_char c :: nat) \<le> 0x39)"

text \<open>\<^verbatim>\<open>snprintf\<close> with \<^verbatim>\<open>"%d"\<close> and with \<^verbatim>\<open>"%03d"\<close>: decimal digits, most significant first.\<close>

fun dec_digits :: "nat \<Rightarrow> bytes" where
  "dec_digits n =
     (if n < 10 then [char_of (0x30 + n)]
      else dec_digits (n div 10) @ [char_of (0x30 + n mod 10)])"

declare dec_digits.simps [simp del]

definition show_int :: "int \<Rightarrow> bytes" where
  "show_int i = (if i < 0 then CHR ''-'' # dec_digits (nat (- i)) else dec_digits (nat i))"

definition show_03d :: "nat \<Rightarrow> bytes" where
  "show_03d n = replicate (3 - length (dec_digits n)) (CHR ''0'') @ dec_digits n"

text \<open>
  The tail of the loop body of \<^verbatim>\<open>push_quoted_string\<close>, reached when \<^verbatim>\<open>utf8len\<close> gave 1:
  what the byte at \<^verbatim>\<open>s\<close> adds to the buffer. Only the default case of the inner switch reads
  \<^verbatim>\<open>*(s + 1)\<close>.
\<close>

definition quote_byte :: "bytes \<Rightarrow> bytes option" where
  "quote_byte s = do {
     c \<leftarrow> peek s 0;
     if c = DQUOTE \<or> c = BSLASH then Some [BSLASH, c]
     else if \<not> iscntrl c then Some [c]
     else if (of_char c :: nat) = 0 then Some [BSLASH, CHR ''0'']
     else if (of_char c :: nat) = 7 then Some [BSLASH, CHR ''a'']
     else if (of_char c :: nat) = 8 then Some [BSLASH, CHR ''b'']
     else if (of_char c :: nat) = 9 then Some [BSLASH, CHR ''t'']
     else if (of_char c :: nat) = 10 then Some [BSLASH, CHR ''n'']
     else if (of_char c :: nat) = 11 then Some [BSLASH, CHR ''v'']
     else if (of_char c :: nat) = 12 then Some [BSLASH, CHR ''f'']
     else if (of_char c :: nat) = 13 then Some [BSLASH, CHR ''r'']
     else do {
       d \<leftarrow> peek s 1;
       if \<not> isdigit d then Some (BSLASH # dec_digits (of_char c))
       else Some (BSLASH # show_03d (of_char c))
     }
   }"

text \<open>The replacement character U+FFFD, \<^verbatim>\<open>"\xEF\xBF\xBD"\<close>.\<close>

definition replacement :: bytes where
  "replacement = [CHR 0xEF, CHR 0xBF, CHR 0xBD]"

text \<open>
  \<^verbatim>\<open>len -= nbyte\<close> on a \<^verbatim>\<open>size_t\<close> (64 bits): the subtraction wraps around when
  \<open>nbyte\<close> is more than \<open>len\<close>.
\<close>

definition size_sub :: "nat \<Rightarrow> nat \<Rightarrow> nat" where
  "size_sub len n = (if n \<le> len then len - n else len + 2 ^ 64 - n)"

datatype error =
    OutOfBounds
  | NotEnoughArgs bytes
  | UnsupportedType byte bytes
  | PlaceholderTooLong
  | QModifiers
  | ArgError nat
  | UndefinedCast nat
  | MetaError bytes
  | AsprintfFailed
  | ConcatError
  | ApiMisuse

text \<open>
  One turn of the \<^verbatim>\<open>while (len > 0)\<close> loop of \<^verbatim>\<open>push_quoted_string\<close>: \<open>s\<close> is the
  pointer, \<open>len\<close> the counter, \<open>b\<close> the buffer. \<^verbatim>\<open>luaL_addlstring(&b, s, nbyte)\<close> reads
  \<open>nbyte\<close> bytes at \<open>s\<close>.
\<close>

definition quote_step :: "bytes \<Rightarrow> nat \<Rightarrow> bytes \<Rightarrow> error + (bytes \<times> nat \<times> bytes)" where
  "quote_step s len b =
     (case utf8len s of
        None \<Rightarrow> Inl OutOfBounds
      | Some nbyte \<Rightarrow>
          if nbyte < 0 then
            Inr (drop (nat (- nbyte)) s, size_sub len (nat (- nbyte)), b @ replacement)
          else if nbyte > 1 then
            (if nat nbyte \<le> length s
             then Inr (drop (nat nbyte) s, size_sub len (nat nbyte), b @ take (nat nbyte) s)
             else Inl OutOfBounds)
          else
            (case quote_byte s of
               None \<Rightarrow> Inl OutOfBounds
             | Some e \<Rightarrow> Inr (drop 1 s, size_sub len 1, b @ e)))"

lemma utf8len_Some_nonempty: "utf8len s = Some n \<Longrightarrow> s \<noteq> []"
  by (auto simp: utf8len_def peek_def)

lemma quote_step_shorter: "quote_step s len b = Inr (s', len', b') \<Longrightarrow> length s' < length s"
  unfolding quote_step_def
  by (auto split: option.splits if_splits dest: utf8len_Some_nonempty)

function quote_loop :: "bytes \<Rightarrow> nat \<Rightarrow> bytes \<Rightarrow> error + bytes" where
  "quote_loop s len b =
     (if len = 0 then Inr b
      else case quote_step s len b of
        Inl e \<Rightarrow> Inl e
      | Inr (s', len', b') \<Rightarrow> quote_loop s' len' b')"
  by pat_completeness auto
termination
  by (relation "measure (\<lambda>(s, len, b). length s)") (auto dest: quote_step_shorter)

declare quote_loop.simps [simp del]

text \<open>
  The states the loop passes through from a start state: the start, and the state after
  one more turn taken with \<open>len\<close> not yet 0.
\<close>

inductive quote_reach :: "bytes \<times> nat \<times> bytes \<Rightarrow> bytes \<times> nat \<times> bytes \<Rightarrow> bool"
  for start :: "bytes \<times> nat \<times> bytes"
where
  reach_start: "quote_reach start start"
| reach_step:
    "quote_reach start (s, len, b) \<Longrightarrow> len \<noteq> 0 \<Longrightarrow> quote_step s len b = Inr st'
       \<Longrightarrow> quote_reach start st'"

text \<open>
  The encoder on the bytes of the display string: the buffer of a Lua string of
  length \<open>len\<close> holds a NUL after its bytes.
\<close>

definition quote_bytes :: "bytes \<Rightarrow> error + bytes" where
  "quote_bytes str =
     (case quote_loop (str @ [NUL]) (length str) [DQUOTE] of
        Inl e \<Rightarrow> Inl e
      | Inr b \<Rightarrow> Inr (b @ [DQUOTE]))"


section \<open>Lua values and what the host runtime supplies\<close>

text \<open>
  The values on the Lua stack. \<open>'f\<close> is the host's floating-point number type.
  \<open>LTable\<close> is a table by the entries \<^verbatim>\<open>lua_rawseti\<close> stored in it; \<open>LOther\<close> is any
  other value (function, userdata, thread), by its type name and identity.
\<close>

datatype 'f lua_value =
    LNil
  | LBool bool
  | LInt int
  | LFlt 'f
  | LStr bytes
  | LTable "(nat \<times> 'f lua_value) list"
  | LOther string nat

text \<open>The argument \<^verbatim>\<open>asprintf\<close> receives after the format: the member of the union \<^verbatim>\<open>val\<close>.\<close>

datatype 'f carg = AInt int | ADbl 'f | AStr bytes | APtr nat

text \<open>
  The Lua API and the C library, which are not part of the repository, as parameters:
  \<^item> \<open>callmeta v\<close>: \<^verbatim>\<open>luaL_callmeta(L, idx, "__tostring")\<close>; \<open>None\<close> when the value has no
    such metamethod, \<open>Some (Inl msg)\<close> when the metamethod raises, \<open>Some (Inr r)\<close> its result;
  \<^item> \<open>number_text\<close>: \<^verbatim>\<open>lua_tolstring\<close> on a number; \<open>topointer\<close>: \<^verbatim>\<open>lua_topointer\<close>;
    \<open>pointer_text\<close>: \<^verbatim>\<open>%p\<close> of \<^verbatim>\<open>snprintf\<close>;
  \<^item> \<open>tointeger\<close> and \<open>tonumber\<close>: the conversions of \<^verbatim>\<open>luaL_checkinteger\<close> and
    \<^verbatim>\<open>luaL_checknumber\<close> (\<open>None\<close>: no conversion, the check raises);
  \<^item> \<open>number_to_int\<close>: the cast \<^verbatim>\<open>(int)\<close> of a floating-point number, \<open>None\<close> where C
    leaves it undefined;
  \<^item> \<open>asprintf fmt arg errno\<close>: the text (\<open>None\<close> for the return value -1) and the new
    \<^verbatim>\<open>errno\<close>; \<open>strerror\<close>.
\<close>

record 'f host =
  callmeta :: "'f lua_value \<Rightarrow> (bytes + 'f lua_value) option"
  number_text :: "'f lua_value \<Rightarrow> bytes"
  topointer :: "'f lua_value \<Rightarrow> nat"
  pointer_text :: "nat \<Rightarrow> bytes"
  tointeger :: "'f lua_value \<Rightarrow> int option"
  tonumber :: "'f lua_value \<Rightarrow> 'f option"
  number_to_int :: "'f \<Rightarrow> int option"
  asprintf :: "bytes \<Rightarrow> 'f carg \<Rightarrow> nat \<Rightarrow> bytes option \<times> nat"
  strerror :: "nat \<Rightarrow> bytes"

text \<open>Errors are values: \<open>ebind\<close> passes the first one on, as \<^verbatim>\<open>luaL_error\<close> leaves the call.\<close>

definition ebind :: "'e + 'a \<Rightarrow> ('a \<Rightarrow> 'e + 'b) \<Rightarrow> 'e + 'b" where
  "ebind x f = (case x of Inl e \<Rightarrow> Inl e | Inr a \<Rightarrow> f a)"

lemma ebind_cong [fundef_cong]:
  "x = y \<Longrightarrow> (\<And>a. y = Inr a \<Longrightarrow> f a = g a) \<Longrightarrow> ebind x f = ebind y g"
  by (auto simp: ebind_def split: sum.splits)

lemma ebind_Inr [simp]: "ebind (Inr a) f = f a"
  by (simp add: ebind_def)

lemma ebind_Inl [simp]: "ebind (Inl e) f = Inl e"
  by (simp add: ebind_def)

definition in_bounds :: "'a option \<Rightarrow> error + 'a" where
  "in_bounds x = (case x of None \<Rightarrow> Inl OutOfBounds | Some a \<Rightarrow> Inr a)"

definition checked :: "nat \<Rightarrow> 'a option \<Rightarrow> error + 'a" where
  "checked idx x = (case x of None \<Rightarrow> Inl (ArgError idx) | Some a \<Rightarrow> Inr a)"

text \<open>The C string at a pointer: the bytes before the first NUL.\<close>

definition cstr :: "bytes \<Rightarrow> bytes" where
  "cstr s = takeWhile (\<lambda>c. c \<noteq> NUL) s"

text \<open>The value at a stack index (from 1); \<open>None\<close> is \<^verbatim>\<open>LUA_TNONE\<close>.\<close>

definition index :: "'a list \<Rightarrow> nat \<Rightarrow> 'a option" where
  "index stk idx = (if 1 \<le> idx \<and> idx \<le> length stk then Some (stk ! (idx - 1)) else None)"

definition luaL_checkinteger :: "'f host \<Rightarrow> 'f lua_value \<Rightarrow> int option" where
  "luaL_checkinteger h v =
     (case v of LInt i \<Rightarrow> Some i | LFlt f \<Rightarrow> tointeger h v | LStr s \<Rightarrow> tointeger h v | _ \<Rightarrow> None)"

definition luaL_checknumber :: "'f host \<Rightarrow> 'f lua_value \<Rightarrow> 'f option" where
  "luaL_checknumber h v =
     (case v of LInt i \<Rightarrow> tonumber h v | LFlt f \<Rightarrow> Some f | LStr s \<Rightarrow> tonumber h v | _ \<Rightarrow> None)"

section \<open>Display coercion\<close>

definition display :: "'f host \<Rightarrow> 'f lua_value \<Rightarrow> bytes" where
  "display h v =
     (case v of
        LInt i \<Rightarrow> number_text h v
      | LFlt f \<Rightarrow> number_text h v
      | LStr s \<Rightarrow> s
      | LNil \<Rightarrow> ''nil''
      | LBool b \<Rightarrow> (if b then ''true'' else ''false'')
      | LTable t \<Rightarrow> ''table: '' @ pointer_text h (topointer h v)
      | LOther tn i \<Rightarrow> tn @ '': '' @ pointer_text h (topointer h v))"

text \<open>
  \<^verbatim>\<open>tolstring\<close>: the result of \<^verbatim>\<open>__tostring\<close> replaces the argument in its stack slot
  (\<^verbatim>\<open>lua_replace\<close>), so the function gives the value now in the slot and the display string.
\<close>

definition tolstring :: "'f host \<Rightarrow> 'f lua_value \<Rightarrow> error + ('f lua_value \<times> bytes)" where
  "tolstring h v =
     (case callmeta h v of
        None \<Rightarrow> Inr (v, display h v)
      | Some (Inl msg) \<Rightarrow> Inl (MetaError msg)
      | Some (Inr r) \<Rightarrow> Inr (r, display h r))"

definition push_quoted_string :: "'f host \<Rightarrow> 'f lua_value \<Rightarrow> error + ('f lua_value \<times> bytes)" where
  "push_quoted_string h v =
     ebind (tolstring h v) (\<lambda>(v', str). ebind (quote_bytes str) (\<lambda>q. Inr (v', q)))"


section \<open>The specifier formatter\<close>

text \<open>
  \<^verbatim>\<open>char buf[255] = {0}\<close>: the placeholder is the list of the bytes copied into it so far,
  the bytes after them are NUL.
\<close>

definition buf_at :: "bytes \<Rightarrow> nat \<Rightarrow> byte" where
  "buf_at buf i = (if i < length buf then buf ! i else NUL)"

text \<open>
  \<^verbatim>\<open>asprintf\<close>, then \<^verbatim>\<open>lua_pushstring\<close> of its result: both read C strings. \<open>v\<close> is the
  value in the argument's stack slot, passed through.
\<close>

definition print_arg ::
  "'f host \<Rightarrow> bytes \<Rightarrow> 'f carg \<Rightarrow> 'f lua_value \<Rightarrow> nat \<Rightarrow> error + ('f lua_value \<times> 'f lua_value \<times> nat)"
where
  "print_arg h buf a v e =
     (case asprintf h (cstr buf) a e of
        (None, e') \<Rightarrow> Inl AsprintfFailed
      | (Some r, e') \<Rightarrow> Inr (v, LStr (cstr r), e'))"

text \<open>
  \<^verbatim>\<open>push_format_string\<close>: the switch on the type character. The result is the value now in
  the argument's slot, the value pushed and \<^verbatim>\<open>errno\<close>. A type character with no case leaves
  \<^verbatim>\<open>mem\<close> NULL, and \<^verbatim>\<open>lua_pushstring\<close> of NULL pushes nil. For \<^verbatim>\<open>%c\<close> of a string the
  byte is taken as the number \<^verbatim>\<open>%c\<close> prints it from.
\<close>

definition push_format_string ::
  "'f host \<Rightarrow> bytes \<Rightarrow> byte \<Rightarrow> nat \<Rightarrow> 'f lua_value \<Rightarrow> nat
     \<Rightarrow> error + ('f lua_value \<times> 'f lua_value \<times> nat)"
where
  "push_format_string h buf ty arg_idx v e =
     (if ty \<in> set ''diouxX'' then
        ebind (case v of
                 LBool b \<Rightarrow> Inr (if b then 1 else 0)
               | _ \<Rightarrow> checked arg_idx (luaL_checkinteger h v))
          (\<lambda>i. print_arg h buf (AInt i) v e)
      else if ty = CHR ''c'' then
        ebind (case v of
                 LStr s \<Rightarrow>
                   if length s > 1 then Inl (ArgError arg_idx)
                   else Inr (int (of_char (hd (s @ [NUL]))))
               | _ \<Rightarrow> checked arg_idx (luaL_checkinteger h v))
          (\<lambda>i. print_arg h buf (AInt i) v e)
      else if ty \<in> set ''eEfFgGaA'' then
        ebind (checked arg_idx (luaL_checknumber h v)) (\<lambda>d. print_arg h buf (ADbl d) v e)
      else if ty = CHR ''s'' then
        ebind (tolstring h v) (\<lambda>(v', str). print_arg h buf (AStr (cstr str)) v' e)
      else if ty = CHR ''p'' then
        print_arg h buf (APtr (topointer h v)) v e
      else if ty = CHR ''q'' then
        (if buf_at buf 0 \<noteq> CHR ''%'' \<or> buf_at buf 1 \<noteq> CHR ''q'' \<or> buf_at buf 2 \<noteq> NUL
         then Inl QModifiers
         else ebind (push_quoted_string h v) (\<lambda>(v', q). Inr (v', LStr q, e)))
      else Inr (v, LNil, e))"

text \<open>
  \<^verbatim>\<open>uint2str\<close>: the argument at \<open>idx\<close> as decimal digits. \<^verbatim>\<open>(int)lua_tonumber(L, idx)\<close>
  is defined when the number is in the range of \<^verbatim>\<open>int\<close> (32 bits).
\<close>

definition uint2str ::
  "'f host \<Rightarrow> bytes \<Rightarrow> nat \<Rightarrow> 'f lua_value list \<Rightarrow> nat \<Rightarrow> error + bytes"
where
  "uint2str h placeholder narg stk idx =
     (if idx > narg then Inl (NotEnoughArgs placeholder)
      else case index stk idx of
        Some (LInt i) \<Rightarrow>
          (if - (2 ^ 31) \<le> i \<and> i < 2 ^ 31 then Inr (show_int i) else Inl (UndefinedCast idx))
      | Some (LFlt f) \<Rightarrow>
          (case number_to_int h f of
             Some i \<Rightarrow> Inr (show_int i)
           | None \<Rightarrow> Inl (UndefinedCast idx))
      | _ \<Rightarrow> Inl (ArgError idx))"

section \<open>The format-string parser\<close>

text \<open>
  \<^verbatim>\<open>strchr(set, c)\<close> as a truth value. The terminating NUL counts as part of the string
  searched, so \<^verbatim>\<open>strchr\<close> finds the character NUL in every string.
\<close>

definition strchr :: "bytes \<Rightarrow> byte \<Rightarrow> bool" where
  "strchr chars c = (c = NUL \<or> c \<in> set chars)"

definition flag_chars :: bytes where
  "flag_chars = ''#I0- +'' @ [CHR 0x27]"

definition width_chars :: bytes where
  "width_chars = ''1234567890*''"

definition length_chars :: bytes where
  "length_chars = ''hljztL''"

definition type_chars :: bytes where
  "type_chars = ''diouxXeEfFgGaAcspqm''"

text \<open>
  The bytes from pointer \<open>a\<close> up to pointer \<open>b\<close> of the buffer \<open>m\<close>, as \<^verbatim>\<open>lua_pushlstring\<close>
  and \<^verbatim>\<open>memcpy\<close> read them; \<open>None\<close> when the length \<open>b - a\<close> is negative or the bytes are
  not all in the buffer.
\<close>

definition span :: "bytes \<Rightarrow> nat \<Rightarrow> nat \<Rightarrow> bytes option" where
  "span m a b = (if a \<le> b \<and> b \<le> length m then Some (take (b - a) (drop a m)) else None)"

text \<open>\<^verbatim>\<open>COPY2PLACEHOLDER\<close>: \<open>blen\<close> is 255 less the bytes copied so far.\<close>

definition copy2placeholder :: "bytes \<Rightarrow> bytes \<Rightarrow> error + bytes" where
  "copy2placeholder buf str =
     (if length str \<ge> 255 - length buf then Inl PlaceholderTooLong
      else Inr (buf @ str))"

text \<open>The flags loop: \<^verbatim>\<open>while (strchr("#I0- +'", *cur)) cur++;\<close>\<close>

function skip_flags :: "bytes \<Rightarrow> nat \<Rightarrow> nat option" where
  "skip_flags m cur =
     (case peek m cur of
        None \<Rightarrow> None
      | Some c \<Rightarrow> if strchr flag_chars c then skip_flags m (cur + 1) else Some cur)"
  by pat_completeness auto
termination
  by (relation "measure (\<lambda>(m, cur). length m - cur)") (auto simp: peek_def split: if_splits)

declare skip_flags.simps [simp del]

text \<open>
  The width loop and the precision loop (the same code): the pointers \<open>cur\<close> and \<open>head\<close>,
  the placeholder and \<open>nextarg\<close>. \<open>fmt\<close> points to the \<^verbatim>\<open>%\<close> of the specifier.
\<close>

function width_field ::
  "'f host \<Rightarrow> bytes \<Rightarrow> nat \<Rightarrow> 'f lua_value list \<Rightarrow> nat \<Rightarrow> nat \<Rightarrow> nat \<Rightarrow> bytes \<Rightarrow> nat
     \<Rightarrow> error + (nat \<times> nat \<times> bytes \<times> nat)"
where
  "width_field h m narg stk fmt cur head buf nextarg =
     (case peek m cur of
        None \<Rightarrow> Inl OutOfBounds
      | Some c \<Rightarrow>
          if \<not> strchr width_chars c then Inr (cur, head, buf, nextarg)
          else if c = CHR ''*'' then
            ebind (in_bounds (span m head cur)) (\<lambda>lead.
            ebind (copy2placeholder buf lead) (\<lambda>buf1.
            ebind (uint2str h (cstr (drop fmt m)) narg stk (nextarg + 1)) (\<lambda>w.
            ebind (copy2placeholder buf1 w) (\<lambda>buf2.
              width_field h m narg stk fmt (cur + 1) (cur + 1) buf2 (nextarg + 1)))))
          else width_field h m narg stk fmt (cur + 1) head buf nextarg)"
  by pat_completeness auto
termination
  by (relation "measure (\<lambda>(h, m, narg, stk, fmt, cur, head, buf, nextarg). length m - cur)")
     (auto simp: peek_def split: if_splits)

declare width_field.simps [simp del]


text \<open>The state of \<^verbatim>\<open>format_arguments\<close> between two steps of its loop.\<close>

record 'f pstate =
  stack :: "'f lua_value list"
  cur :: nat
  head :: nat
  nextarg :: nat
  errno :: nat

text \<open>
  The body of \<^verbatim>\<open>if (*cur == '%')\<close> after the test for \<^verbatim>\<open>%%\<close>, one conversion specifier,
  in the three parts the source's comments name. First "push leading format string".
\<close>

definition push_leading :: "bytes \<Rightarrow> 'f pstate \<Rightarrow> error + 'f lua_value list" where
  "push_leading m st =
     (if cur st \<noteq> head st
      then ebind (in_bounds (span m (head st) (cur st))) (\<lambda>lit. Inr (stack st @ [LStr lit]))
      else Inr (stack st))"

text \<open>
  Then the fields: flags, width, precision, length modifier and type, with the last
  \<^verbatim>\<open>COPY2PLACEHOLDER\<close>. \<open>fmt\<close> points to the \<^verbatim>\<open>%\<close>. The result is the pointer to the type
  character, the type character, the placeholder and \<open>nextarg\<close>.
\<close>

definition parse_placeholder ::
  "'f host \<Rightarrow> bytes \<Rightarrow> nat \<Rightarrow> 'f lua_value list \<Rightarrow> nat \<Rightarrow> nat
     \<Rightarrow> error + (nat \<times> byte \<times> bytes \<times> nat)"
where
  "parse_placeholder h m narg stk fmt nextarg0 =
     ebind (in_bounds (skip_flags m (fmt + 1))) (\<lambda>c1.
     ebind (width_field h m narg stk fmt c1 fmt [] nextarg0) (\<lambda>(c2, h2, b2, n2).
     ebind (in_bounds (peek m c2)) (\<lambda>dot.
     ebind (if dot = CHR ''.'' then width_field h m narg stk fmt (c2 + 1) h2 b2 n2
            else Inr (c2, h2, b2, n2)) (\<lambda>(c3, h3, b3, n3).
     ebind (in_bounds (peek m c3)) (\<lambda>lm.
     let c4 = (if strchr length_chars lm then c3 + 1 else c3) in
     ebind (in_bounds (peek m c4)) (\<lambda>ty.
     if \<not> strchr type_chars ty then Inl (UnsupportedType ty (cstr (drop fmt m)))
     else
     ebind (in_bounds (span m h3 (c4 + 1))) (\<lambda>rest.
     ebind (copy2placeholder b3 rest) (\<lambda>b4.
       Inr (c4, ty, b4, n3)))))))))"

text \<open>
  Last the output of the specifier: \<^verbatim>\<open>%m\<close> pushes \<^verbatim>\<open>strerror(errno)\<close>, every other type
  takes the next argument. The result has \<open>cur\<close> at the type character; the loop's
  \<^verbatim>\<open>cur++\<close> follows.
\<close>

definition emit ::
  "'f host \<Rightarrow> nat \<Rightarrow> 'f pstate \<Rightarrow> 'f lua_value list \<Rightarrow> nat \<Rightarrow> byte \<Rightarrow> bytes \<Rightarrow> nat
     \<Rightarrow> error + 'f pstate"
where
  "emit h narg st stk c4 ty b4 n3 =
     (if ty = CHR ''m'' then
        Inr (st\<lparr>stack := stk @ [LStr (cstr (strerror h (errno st)))],
                cur := c4, head := c4 + 1, nextarg := n3\<rparr>)
      else if n3 + 1 > narg then Inl (NotEnoughArgs (cstr b4))
      else
        ebind (in_bounds (index stk (n3 + 1))) (\<lambda>v.
        ebind (push_format_string h b4 ty (n3 + 1) v (errno st)) (\<lambda>(v', piece, e').
          Inr (st\<lparr>stack := stk[n3 := v'] @ [piece],
                  cur := c4, head := c4 + 1, nextarg := n3 + 1, errno := e'\<rparr>))))"

definition conversion :: "'f host \<Rightarrow> bytes \<Rightarrow> nat \<Rightarrow> 'f pstate \<Rightarrow> error + 'f pstate" where
  "conversion h m narg st =
     ebind (push_leading m st) (\<lambda>stk.
     ebind (parse_placeholder h m narg stk (cur st) (nextarg st)) (\<lambda>(c4, ty, b4, n3).
       emit h narg st stk c4 ty b4 n3))"

lemma peek_Some_lt: "peek m i = Some c \<Longrightarrow> i < length m"
  by (simp add: peek_def split: if_splits)

lemma skip_flags_mono: "skip_flags m c = Some c' \<Longrightarrow> c \<le> c'"
proof (induction m c rule: skip_flags.induct)
  case (1 m cur)
  show ?case
  proof (cases "peek m cur")
    case None
    with "1.prems" show ?thesis by (simp add: skip_flags.simps[of m cur])
  next
    case (Some x)
    show ?thesis
    proof (cases "strchr flag_chars x")
      case True
      with Some "1.prems" have "skip_flags m (cur + 1) = Some c'"
        by (simp add: skip_flags.simps[of m cur])
      with "1.IH"[OF Some True] show ?thesis by simp
    next
      case False
      with Some "1.prems" show ?thesis by (simp add: skip_flags.simps[of m cur])
    qed
  qed
qed

lemma width_field_mono:
  "width_field h m narg stk fmt c hp b n = Inr (c', hp', b', n') \<Longrightarrow> c \<le> c'"
proof (induction h m narg stk fmt c hp b n rule: width_field.induct)
  case (1 h m narg stk fmt cur head buf nextarg)
  note simps = width_field.simps[of h m narg stk fmt cur head buf nextarg]
  show ?case
  proof (cases "peek m cur")
    case None
    with "1.prems" show ?thesis by (simp add: simps)
  next
    case (Some x)
    show ?thesis
    proof (cases "strchr width_chars x")
      case False
      with Some "1.prems" show ?thesis by (simp add: simps)
    next
      case True
      show ?thesis
      proof (cases "x = CHR ''*''")
        case False
        with Some True "1.prems"
        have "width_field h m narg stk fmt (cur + 1) head buf nextarg = Inr (c', hp', b', n')"
          by (simp add: simps)
        with "1.IH"(2) Some True False show ?thesis by fastforce
      next
        case star: True
        with Some True "1.prems" obtain lead buf1 w buf2 where
          a: "in_bounds (span m head cur) = Inr lead"
          and b: "copy2placeholder buf lead = Inr buf1"
          and c: "uint2str h (cstr (drop fmt m)) narg stk (nextarg + 1) = Inr w"
          and d: "copy2placeholder buf1 w = Inr buf2"
          and e: "width_field h m narg stk fmt (cur + 1) (cur + 1) buf2 (nextarg + 1)
                   = Inr (c', hp', b', n')"
          by (auto simp: simps ebind_def split: sum.splits)
        from "1.IH"(1)[OF Some _ star a b c d e] True show ?thesis by simp
      qed
    qed
  qed
qed

lemma uint2str_Inr: "uint2str h p narg stk idx = Inr w \<Longrightarrow> idx \<le> narg"
  by (simp add: uint2str_def split: if_splits)

lemma width_field_nextarg:
  "width_field h m narg stk fmt c hp b n = Inr (c', hp', b', n')
     \<Longrightarrow> n \<le> n' \<and> (n \<le> narg \<longrightarrow> n' \<le> narg)"
proof (induction h m narg stk fmt c hp b n rule: width_field.induct)
  case (1 h m narg stk fmt cur head buf nextarg)
  note simps = width_field.simps[of h m narg stk fmt cur head buf nextarg]
  show ?case
  proof (cases "peek m cur")
    case None
    with "1.prems" show ?thesis by (simp add: simps)
  next
    case (Some x)
    show ?thesis
    proof (cases "strchr width_chars x")
      case False
      with Some "1.prems" show ?thesis by (simp add: simps)
    next
      case True
      show ?thesis
      proof (cases "x = CHR ''*''")
        case False
        with Some True "1.prems"
        have "width_field h m narg stk fmt (cur + 1) head buf nextarg = Inr (c', hp', b', n')"
          by (simp add: simps)
        with "1.IH"(2) Some True False show ?thesis by fastforce
      next
        case star: True
        with Some True "1.prems" obtain lead buf1 w buf2 where
          a: "in_bounds (span m head cur) = Inr lead"
          and b: "copy2placeholder buf lead = Inr buf1"
          and c: "uint2str h (cstr (drop fmt m)) narg stk (nextarg + 1) = Inr w"
          and d: "copy2placeholder buf1 w = Inr buf2"
          and e: "width_field h m narg stk fmt (cur + 1) (cur + 1) buf2 (nextarg + 1)
                   = Inr (c', hp', b', n')"
          by (auto simp: simps ebind_def split: sum.splits)
        from "1.IH"(1)[OF Some _ star a b c d e] True uint2str_Inr[OF c]
        show ?thesis by simp
      qed
    qed
  qed
qed

lemma ebind_InrE:
  assumes "ebind x f = Inr r"
  obtains a where "x = Inr a" "f a = Inr r"
  using assms by (cases x) simp_all

lemma in_bounds_Inr: "in_bounds x = Inr a \<longleftrightarrow> x = Some a"
  by (simp add: in_bounds_def split: option.splits)

lemma parse_placeholder_bounds:
  assumes "parse_placeholder h m narg stk fmt n = Inr (c4, ty, b4, n3)"
  shows "fmt < c4 \<and> n \<le> n3 \<and> (n \<le> narg \<longrightarrow> n3 \<le> narg)"
proof -
  from assms obtain c1 where c1: "skip_flags m (fmt + 1) = Some c1"
    and r1: "ebind (width_field h m narg stk fmt c1 fmt [] n) (\<lambda>(c2, h2, b2, n2).
     ebind (in_bounds (peek m c2)) (\<lambda>dot.
     ebind (if dot = CHR ''.'' then width_field h m narg stk fmt (c2 + 1) h2 b2 n2
            else Inr (c2, h2, b2, n2)) (\<lambda>(c3, h3, b3, n3).
     ebind (in_bounds (peek m c3)) (\<lambda>lm.
     let c4 = (if strchr length_chars lm then c3 + 1 else c3) in
     ebind (in_bounds (peek m c4)) (\<lambda>ty.
     if \<not> strchr type_chars ty then Inl (UnsupportedType ty (cstr (drop fmt m)))
     else
     ebind (in_bounds (span m h3 (c4 + 1))) (\<lambda>rest.
     ebind (copy2placeholder b3 rest) (\<lambda>b4.
       Inr (c4, ty, b4, n3)))))))) = Inr (c4, ty, b4, n3)"
    unfolding parse_placeholder_def by (elim ebind_InrE) (simp add: in_bounds_Inr)
  from r1 obtain c2 h2 b2 n2 where
    w1: "width_field h m narg stk fmt c1 fmt [] n = Inr (c2, h2, b2, n2)"
    and r2: "ebind (in_bounds (peek m c2)) (\<lambda>dot.
     ebind (if dot = CHR ''.'' then width_field h m narg stk fmt (c2 + 1) h2 b2 n2
            else Inr (c2, h2, b2, n2)) (\<lambda>(c3, h3, b3, n3).
     ebind (in_bounds (peek m c3)) (\<lambda>lm.
     let c4 = (if strchr length_chars lm then c3 + 1 else c3) in
     ebind (in_bounds (peek m c4)) (\<lambda>ty.
     if \<not> strchr type_chars ty then Inl (UnsupportedType ty (cstr (drop fmt m)))
     else
     ebind (in_bounds (span m h3 (c4 + 1))) (\<lambda>rest.
     ebind (copy2placeholder b3 rest) (\<lambda>b4.
       Inr (c4, ty, b4, n3))))))) = Inr (c4, ty, b4, n3)"
    by (elim ebind_InrE) auto
  from r2 obtain dot c3 h3 b3 n3' where
    w2: "(if dot = CHR ''.'' then width_field h m narg stk fmt (c2 + 1) h2 b2 n2
            else Inr (c2, h2, b2, n2)) = Inr (c3, h3, b3, n3')"
    and r3: "ebind (in_bounds (peek m c3)) (\<lambda>lm.
     let c4 = (if strchr length_chars lm then c3 + 1 else c3) in
     ebind (in_bounds (peek m c4)) (\<lambda>ty.
     if \<not> strchr type_chars ty then Inl (UnsupportedType ty (cstr (drop fmt m)))
     else
     ebind (in_bounds (span m h3 (c4 + 1))) (\<lambda>rest.
     ebind (copy2placeholder b3 rest) (\<lambda>b4.
       Inr (c4, ty, b4, n3'))))) = Inr (c4, ty, b4, n3)"
    by (elim ebind_InrE) auto
  from r3 have e: "c3 \<le> c4 \<and> n3' = n3"
    by (elim ebind_InrE) (auto simp: Let_def split: if_splits elim!: ebind_InrE)
  from skip_flags_mono[OF c1] have "fmt < c1" by simp
  moreover from width_field_mono[OF w1] have "c1 \<le> c2" .
  moreover from w2 have "c2 \<le> c3"
    by (auto split: if_splits dest: width_field_mono)
  moreover from width_field_nextarg[OF w1] have "n \<le> n2" "n \<le> narg \<longrightarrow> n2 \<le> narg"
    by simp_all
  moreover from w2 have "n2 \<le> n3'" "n2 \<le> narg \<longrightarrow> n3' \<le> narg"
    by (auto split: if_splits dest: width_field_nextarg)
  ultimately show ?thesis using e by auto
qed

lemma emit_cur: "emit h narg st stk c4 ty b4 n3 = Inr st' \<Longrightarrow> cur st' = c4"
  unfolding emit_def
  by (auto split: if_splits prod.splits elim!: ebind_InrE)

lemma conversion_mono:
  assumes "conversion h m narg st = Inr st'"
  shows "cur st < cur st'"
proof -
  from assms obtain stk c4 ty b4 n3 where
    "parse_placeholder h m narg stk (cur st) (nextarg st) = Inr (c4, ty, b4, n3)"
    "emit h narg st stk c4 ty b4 n3 = Inr st'"
    unfolding conversion_def by (elim ebind_InrE) auto
  with parse_placeholder_bounds emit_cur show ?thesis by fastforce
qed

text \<open>
  The loop \<^verbatim>\<open>while (*cur)\<close> of \<^verbatim>\<open>format_arguments\<close>. \<open>m\<close> is the buffer of the format
  string and \<open>narg\<close> the number of values on the stack at the call.
\<close>

function format_loop :: "'f host \<Rightarrow> bytes \<Rightarrow> nat \<Rightarrow> 'f pstate \<Rightarrow> error + 'f pstate" where
  "format_loop h m narg st =
     (case peek m (cur st) of
        None \<Rightarrow> Inl OutOfBounds
      | Some c \<Rightarrow>
          if c = NUL then Inr st
          else if c = CHR ''%'' then
            (case peek m (cur st + 1) of
               None \<Rightarrow> Inl OutOfBounds
             | Some c1 \<Rightarrow>
                 if c1 = CHR ''%'' then
                   (case span m (head st) (cur st + 1) of
                      None \<Rightarrow> Inl OutOfBounds
                    | Some lit \<Rightarrow>
                        format_loop h m narg
                          (st\<lparr>stack := stack st @ [LStr lit], cur := cur st + 2, head := cur st + 2\<rparr>))
                 else
                   (case conversion h m narg st of
                      Inl e \<Rightarrow> Inl e
                    | Inr st' \<Rightarrow> format_loop h m narg (st'\<lparr>cur := cur st' + 1\<rparr>)))
          else format_loop h m narg (st\<lparr>cur := cur st + 1\<rparr>))"
  by pat_completeness auto
termination
proof (relation "measure (\<lambda>(h, m, narg, st). length m - cur st)", goal_cases)
  case 1
  show ?case by simp
next
  case (2 h m narg st c c1 lit)
  then show ?case by (auto dest: peek_Some_lt)
next
  case (3 h m narg st c c1 st')
  from 3(1) have "cur st < length m" by (rule peek_Some_lt)
  moreover from 3(6) have "cur st < cur st'" by (rule conversion_mono)
  ultimately show ?case by simp
next
  case (4 h m narg st c)
  then show ?case by (auto dest: peek_Some_lt)
qed

declare format_loop.simps [simp del]

text \<open>
  \<^verbatim>\<open>format_arguments\<close>: the index of the last argument used, the stack with the pieces
  pushed on it, and \<^verbatim>\<open>errno\<close>.
\<close>

definition format_arguments ::
  "'f host \<Rightarrow> nat \<Rightarrow> 'f lua_value list \<Rightarrow> nat \<Rightarrow> error + (nat \<times> 'f lua_value list \<times> nat)"
where
  "format_arguments h e stk fmt_idx =
     (case index stk fmt_idx of
        Some (LStr t) \<Rightarrow>
          ebind (format_loop h (t @ [NUL]) (length stk)
                   \<lparr>stack = stk, cur = 0, head = 0, nextarg = fmt_idx, errno = e\<rparr>) (\<lambda>st.
            if cur st > head st then
              ebind (in_bounds (span (t @ [NUL]) (head st) (cur st))) (\<lambda>lit.
                Inr (nextarg st, stack st @ [LStr lit], errno st))
            else Inr (nextarg st, stack st, errno st))
      | _ \<Rightarrow> Inr (0, stk, e))"

section \<open>The entry point\<close>

text \<open>
  The stack operations of the Lua API that \<^verbatim>\<open>format_lua\<close> uses. \<^verbatim>\<open>lua_concat\<close> of no
  value pushes the empty string and of one value leaves it as it is; the values it
  concatenates here are those \<^verbatim>\<open>format_arguments\<close> pushed, strings or nil, and nil makes it
  raise.
\<close>

definition text_of :: "'f lua_value \<Rightarrow> bytes option" where
  "text_of v = (case v of LStr s \<Rightarrow> Some s | _ \<Rightarrow> None)"

definition lua_concat :: "'f lua_value list \<Rightarrow> nat \<Rightarrow> error + 'f lua_value list" where
  "lua_concat stk n =
     (if n = 0 then Inr (stk @ [LStr []])
      else if n = 1 then Inr stk
      else
        (let pieces = map text_of (drop (length stk - n) stk) in
         if list_all (\<lambda>p. p \<noteq> None) pieces
         then Inr (take (length stk - n) stk @ [LStr (concat (map the pieces))])
         else Inl ConcatError))"

definition lua_insert :: "'a list \<Rightarrow> nat \<Rightarrow> 'a list" where
  "lua_insert stk idx = take (idx - 1) (butlast stk) @ [last stk] @ drop (idx - 1) (butlast stk)"

definition lua_rawseti :: "'f lua_value list \<Rightarrow> nat \<Rightarrow> nat \<Rightarrow> error + 'f lua_value list" where
  "lua_rawseti stk tblidx i =
     (if tblidx < 1 \<or> length stk \<le> tblidx then Inl ApiMisuse
      else case stk ! (tblidx - 1) of
        LTable t \<Rightarrow>
          Inr ((butlast stk)[tblidx - 1 := LTable ((i, last stk) # filter (\<lambda>kv. fst kv \<noteq> i) t)])
      | _ \<Rightarrow> Inl ApiMisuse)"

text \<open>\<^verbatim>\<open>for (int i = unused; i > 0; i--) lua_rawseti(L, tblidx, i);\<close>\<close>

fun fill_table :: "'f lua_value list \<Rightarrow> nat \<Rightarrow> nat \<Rightarrow> error + 'f lua_value list" where
  "fill_table stk tblidx 0 = Inr stk"
| "fill_table stk tblidx (Suc i) =
     ebind (lua_rawseti stk tblidx (Suc i)) (\<lambda>stk'. fill_table stk' tblidx i)"

text \<open>A C function that returns \<open>n\<close> hands the top \<open>n\<close> values of its stack to the caller.\<close>

definition lua_return :: "'a list \<Rightarrow> nat \<Rightarrow> 'a list" where
  "lua_return stk n = drop (length stk - n) stk"

definition format_lua :: "'f host \<Rightarrow> nat \<Rightarrow> 'f lua_value list \<Rightarrow> error + 'f lua_value list" where
  "format_lua h e stk =
     (let narg = length stk in
      ebind (format_arguments h e stk 1) (\<lambda>(lastarg, stk1, e1).
      let unused = int narg - int lastarg in
      ebind (lua_concat stk1 (length stk1 - narg)) (\<lambda>stk2.
      if unused > 0 then
        (let tblidx = lastarg + 2;
             stk3 = lua_insert stk2 (lastarg + 1);
             stk4 = lua_insert (stk3 @ [LTable []]) tblidx
         in ebind (fill_table stk4 tblidx (nat unused)) (\<lambda>stk5.
              Inr (lua_return (stk5 @ [LInt unused]) 3)))
      else Inr (lua_return stk2 1))))"


section \<open>The validator's contract, in the words of the specification\<close>

text \<open>
  The rows of Table 3-7 of the Unicode Standard (well-formed UTF-8 byte sequences), the
  length a lead byte announces, the bytes that look like a lead byte (\<open>classify_lead\<close>), and
  the resynchronisation skip: one for the lead byte, and one more for each of the bytes
  that would follow it, up to the first that looks like a lead byte. \<open>decode_at\<close> is the
  contract of the decoder put together from them.
\<close>

definition well_formed_seq :: "bytes \<Rightarrow> bool" where
  "well_formed_seq bs =
     (case bs of
        [a] \<Rightarrow> byte_in 0x00 0x7F a
      | [a, b] \<Rightarrow> byte_in 0xC2 0xDF a \<and> byte_in 0x80 0xBF b
      | [a, b, c] \<Rightarrow>
          (byte_in 0xE0 0xE0 a \<and> byte_in 0xA0 0xBF b \<or>
           byte_in 0xE1 0xEC a \<and> byte_in 0x80 0xBF b \<or>
           byte_in 0xED 0xED a \<and> byte_in 0x80 0x9F b \<or>
           byte_in 0xEE 0xEF a \<and> byte_in 0x80 0xBF b) \<and> byte_in 0x80 0xBF c
      | [a, b, c, d] \<Rightarrow>
          (byte_in 0xF0 0xF0 a \<and> byte_in 0x90 0xBF b \<or>
           byte_in 0xF1 0xF3 a \<and> byte_in 0x80 0xBF b \<or>
           byte_in 0xF4 0xF4 a \<and> byte_in 0x80 0x8F b) \<and>
          byte_in 0x80 0xBF c \<and> byte_in 0x80 0xBF d
      | _ \<Rightarrow> False)"

definition lead_len :: "byte \<Rightarrow> nat" where
  "lead_len b =
     (if byte_in 0xC2 0xDF b then 2
      else if byte_in 0xE0 0xEF b then 3
      else if byte_in 0xF0 0xF4 b then 4
      else 1)"

definition classify_lead :: "byte \<Rightarrow> bool" where
  "classify_lead b =
     (byte_in 0x00 0x7F b \<or> byte_in 0xC2 0xDF b \<or> byte_in 0xE0 0xEF b \<or> byte_in 0xF0 0xF4 b)"

definition resync_skip :: "bytes \<Rightarrow> nat" where
  "resync_skip s =
     (case s of
        [] \<Rightarrow> 0
      | b # rest \<Rightarrow>
          Suc (length (takeWhile (\<lambda>c. \<not> classify_lead c) (take (lead_len b - 1) rest))))"

definition decode_at :: "bytes \<Rightarrow> int" where
  "decode_at s =
     (if well_formed_seq (take 1 s) then 1
      else if well_formed_seq (take 2 s) then 2
      else if well_formed_seq (take 3 s) then 3
      else if well_formed_seq (take 4 s) then 4
      else - int (resync_skip s))"


section \<open>The encoder's output, in the words of the specification\<close>

text \<open>
  A control byte with no named escape; the number a run of decimal digits denotes; and the
  pieces the interior of a quoted string is made of: a well-formed multi-byte sequence,
  the replacement character, a backslash escape (a backslash and a quote, a backslash,
  one of the letters \<open>a b t n v f r\<close>, or one to three decimal digits), or a printable
  single byte other than the quote and the backslash.
\<close>

definition unnamed_control :: "byte \<Rightarrow> bool" where
  "unnamed_control c = (iscntrl c \<and> (of_char c :: nat) \<notin> {0, 7, 8, 9, 10, 11, 12, 13})"

definition dec_value :: "bytes \<Rightarrow> nat" where
  "dec_value ds = foldl (\<lambda>a d. 10 * a + ((of_char d :: nat) - 0x30)) 0 ds"

definition is_escape :: "bytes \<Rightarrow> bool" where
  "is_escape t =
     (case t of
        [] \<Rightarrow> False
      | b # r \<Rightarrow>
          b = BSLASH \<and>
          (r \<in> {[DQUOTE], [BSLASH], ''a'', ''b'', ''t'', ''n'', ''v'', ''f'', ''r''}
           \<or> (1 \<le> length r \<and> length r \<le> 3 \<and> list_all isdigit r)))"

definition is_plain :: "bytes \<Rightarrow> bool" where
  "is_plain t =
     (case t of
        [c] \<Rightarrow> (of_char c :: nat) \<le> 0x7F \<and> \<not> iscntrl c \<and> c \<noteq> DQUOTE \<and> c \<noteq> BSLASH
      | _ \<Rightarrow> False)"

definition q_token :: "bytes \<Rightarrow> bool" where
  "q_token t =
     ((2 \<le> length t \<and> well_formed_seq t) \<or> t = replacement \<or> is_escape t \<or> is_plain t)"


section \<open>The host's reader of string literals\<close>

text \<open>
  The reader of double-quoted string literals belongs to the host, not to the repository.
  Its escape rules, as the specification lists them: a backslash and one of
  \<open>a b t n v f r\<close>, a quote or a backslash; and a backslash and a decimal escape, which takes
  up to three decimal digits (so \<^verbatim>\<open>\0\<close> is the decimal escape of one digit 0). An
  unescaped quote does not occur inside a literal.
\<close>

definition named_escape :: "byte \<Rightarrow> byte option" where
  "named_escape e =
     (if e = CHR ''a'' then Some (CHR 0x07)
      else if e = CHR ''b'' then Some (CHR 0x08)
      else if e = CHR ''t'' then Some (CHR 0x09)
      else if e = CHR ''n'' then Some (CHR 0x0A)
      else if e = CHR ''v'' then Some (CHR 0x0B)
      else if e = CHR ''f'' then Some (CHR 0x0C)
      else if e = CHR ''r'' then Some (CHR 0x0D)
      else if e = DQUOTE then Some DQUOTE
      else if e = BSLASH then Some BSLASH
      else None)"

fun lua_unescape :: "bytes \<Rightarrow> bytes option" where
  "lua_unescape [] = Some []"
| "lua_unescape (c # cs) =
     (if c = BSLASH then
        (case cs of
           [] \<Rightarrow> None
         | e # r \<Rightarrow>
             if isdigit e then
               (let ds = takeWhile isdigit (take 3 cs) in
                if dec_value ds \<le> 255
                then map_option ((#) (char_of (dec_value ds))) (lua_unescape (drop (length ds) cs))
                else None)
             else
               (case named_escape e of
                  None \<Rightarrow> None
                | Some b \<Rightarrow> map_option ((#) b) (lua_unescape r)))
      else if c = DQUOTE then None
      else map_option ((#) c) (lua_unescape cs))"

definition lua_read_literal :: "bytes \<Rightarrow> bytes option" where
  "lua_read_literal lit =
     (if 2 \<le> length lit \<and> hd lit = DQUOTE \<and> last lit = DQUOTE
      then lua_unescape (butlast (tl lit))
      else None)"


section \<open>A platform for the examples\<close>

text \<open>
  A host whose \<^verbatim>\<open>asprintf\<close> knows \<^verbatim>\<open>%d\<close> with an optional decimal width and \<^verbatim>\<open>%s\<close>,
  whose values have no metamethods, and whose \<^verbatim>\<open>strerror(0)\<close> is "Success". The examples
  and witnesses below are evaluated on it.
\<close>

definition example_asprintf :: "bytes \<Rightarrow> unit carg \<Rightarrow> nat \<Rightarrow> bytes option \<times> nat" where
  "example_asprintf fmt a e =
     (case a of
        AInt i \<Rightarrow>
          (if fmt \<noteq> [] \<and> hd fmt = CHR ''%'' \<and> last fmt = CHR ''d'' \<and> list_all isdigit (butlast (tl fmt))
           then (let w = foldl (\<lambda>n c. 10 * n + (of_char c - 0x30)) 0 (butlast (tl fmt));
                     s = show_int i
                 in (Some (replicate (w - length s) (CHR '' '') @ s), e))
           else (None, 22))
      | AStr s \<Rightarrow> (if fmt = ''%s'' then (Some s, e) else (None, 22))
      | _ \<Rightarrow> (None, 22))"

definition example_host :: "unit host" where
  "example_host =
     \<lparr>callmeta = (\<lambda>v. None),
      number_text = (\<lambda>v. case v of LInt i \<Rightarrow> show_int i | _ \<Rightarrow> ''0.0''),
      topointer = (\<lambda>v. 0),
      pointer_text = (\<lambda>p. ''0x'' @ dec_digits p),
      tointeger = (\<lambda>v. None),
      tonumber = (\<lambda>v. Some ()),
      number_to_int = (\<lambda>f. Some 0),
      asprintf = example_asprintf,
      strerror = (\<lambda>e. if e = 0 then ''Success'' else ''Unknown error '' @ dec_digits e)\<rparr>"


section \<open>The argument slots during a call\<close>

text \<open>
  What \<^verbatim>\<open>format_arguments\<close> keeps true of the stack between two steps: the \<open>narg\<close> slots
  of the call are still there, \<open>nextarg\<close> is one of them, and the slots after \<open>nextarg\<close> hold
  what they held at the call.
\<close>

definition frame :: "nat \<Rightarrow> 'f lua_value list \<Rightarrow> 'f pstate \<Rightarrow> bool" where
  "frame narg stk0 st =
     (narg \<le> length (stack st) \<and> nextarg st \<le> narg
      \<and> drop (nextarg st) (take narg (stack st)) = drop (nextarg st) stk0)"


section \<open>Specifiers with their fields\<close>

text \<open>
  The shape of a specifier after its \<^verbatim>\<open>%\<close>: flags from \<^verbatim>\<open>#I0- +'\<close>, a width of decimal
  digits and \<^verbatim>\<open>*\<close>, an optional precision (a dot, then decimal digits and \<^verbatim>\<open>*\<close>) and at
  most one length modifier from \<^verbatim>\<open>hljztL\<close>. \<open>stars\<close> counts the \<^verbatim>\<open>*\<close> of a field, and
  \<open>subst_stars\<close> puts the texts \<open>ws\<close>, in their order, in the places of the \<^verbatim>\<open>*\<close>.
  \<open>plain_text\<close> is template text without a \<^verbatim>\<open>%\<close> and without a NUL byte.
\<close>

definition spec_fields :: "bytes \<Rightarrow> bytes \<Rightarrow> bytes \<Rightarrow> bytes \<Rightarrow> bool" where
  "spec_fields fl wd pr lm =
     (list_all (\<lambda>c. c \<in> set flag_chars) fl \<and> list_all (\<lambda>c. c \<in> set width_chars) wd
      \<and> (case pr of [] \<Rightarrow> True | d # ds \<Rightarrow> d = CHR ''.'' \<and> list_all (\<lambda>c. c \<in> set width_chars) ds)
      \<and> (case lm of [] \<Rightarrow> True | l # ls \<Rightarrow> l \<in> set length_chars \<and> ls = []))"

definition stars :: "bytes \<Rightarrow> nat" where
  "stars cs = length (filter (\<lambda>c. c = CHR ''*'') cs)"

fun subst_stars :: "bytes \<Rightarrow> bytes list \<Rightarrow> bytes" where
  "subst_stars [] ws = []"
| "subst_stars (c # cs) ws =
     (if c = CHR ''*'' then
        (case ws of [] \<Rightarrow> c # subst_stars cs [] | w # ws' \<Rightarrow> w @ subst_stars cs ws')
      else c # subst_stars cs ws)"

definition plain_text :: "bytes \<Rightarrow> bool" where
  "plain_text lit = list_all (\<lambda>c. c \<noteq> NUL \<and> c \<noteq> CHR ''%'') lit"


section \<open>Properties of the validator\<close>

lemma lead_cases:
  obtains "byte_in 0x00 0x7F a" | "byte_in 0x80 0xC1 a" | "byte_in 0xC2 0xDF a"
  | "byte_in 0xE0 0xE0 a" | "byte_in 0xE1 0xEC a" | "byte_in 0xED 0xED a" | "byte_in 0xEE 0xEF a"
  | "byte_in 0xF0 0xF0 a" | "byte_in 0xF1 0xF3 a" | "byte_in 0xF4 0xF4 a" | "byte_in 0xF5 0xFF a"
proof -
  have "(of_char a :: nat) < 256" by simp
  then have "byte_in 0x00 0x7F a \<or> byte_in 0x80 0xC1 a \<or> byte_in 0xC2 0xDF a
  \<or> byte_in 0xE0 0xE0 a \<or> byte_in 0xE1 0xEC a \<or> byte_in 0xED 0xED a \<or> byte_in 0xEE 0xEF a
  \<or> byte_in 0xF0 0xF0 a \<or> byte_in 0xF1 0xF3 a \<or> byte_in 0xF4 0xF4 a \<or> byte_in 0xF5 0xFF a"
    unfolding byte_in_def by linarith
  then show ?thesis using that by blast
qed

lemma and_even: "even b \<Longrightarrow> (m::nat) AND b = 2 * ((m div 2) AND (b div 2))"
  by (subst and_nat_rec) simp

lemma and_192: "(m::nat) AND 192 = 64 * ((m div 64) AND 3)"
proof -
  have "m AND 192 = 2 * ((m div 2) AND 96)" by (simp add: and_even)
  also have "(m div 2) AND 96 = 2 * ((m div 2 div 2) AND 48)" by (simp add: and_even)
  also have "(m div 2 div 2) AND 48 = 2 * ((m div 2 div 2 div 2) AND 24)" by (simp add: and_even)
  also have "(m div 2 div 2 div 2) AND 24 = 2 * ((m div 2 div 2 div 2 div 2) AND 12)"
    by (simp add: and_even)
  also have "(m div 2 div 2 div 2 div 2) AND 12 = 2 * ((m div 2 div 2 div 2 div 2 div 2) AND 6)"
    by (simp add: and_even)
  also have "(m div 2 div 2 div 2 div 2 div 2) AND 6 =
      2 * ((m div 2 div 2 div 2 div 2 div 2 div 2) AND 3)"
    by (simp add: and_even)
  finally show ?thesis by (simp add: div_mult2_eq[symmetric])
qed

lemma and_192_range:
  assumes "n < 256"
  shows "((n::nat) AND 192 = 128) = (128 \<le> n \<and> n \<le> 191)"
proof -
  have "n div 64 < 4" using assms by simp
  then consider "n div 64 = 0" | "n div 64 = 1" | "n div 64 = 2" | "n div 64 = 3" by linarith
  then show ?thesis
  proof cases
    case 1 then show ?thesis unfolding and_192 by simp linarith
  next
    case 2 then show ?thesis unfolding and_192 by simp linarith
  next
    case 3 then show ?thesis unfolding and_192 by simp linarith
  next
    case 4 then show ?thesis unfolding and_192 by simp linarith
  qed
qed

lemma is_utf8tail_range: "is_utf8tail c = byte_in 0x80 0xBF c"
  unfolding is_utf8tail_def byte_in_def by (simp add: and_192_range)

lemma firstb_lead: "is_utf8firstb b = classify_lead b"
  by (simp add: is_utf8firstb_def classify_lead_def byte_in_def Let_def)

lemma wf_simps:
  "well_formed_seq [] = False"
  "well_formed_seq [a] = byte_in 0x00 0x7F a"
  "well_formed_seq [a, b] = (byte_in 0xC2 0xDF a \<and> byte_in 0x80 0xBF b)"
  "well_formed_seq [a, b, c] =
          ((byte_in 0xE0 0xE0 a \<and> byte_in 0xA0 0xBF b \<or>
           byte_in 0xE1 0xEC a \<and> byte_in 0x80 0xBF b \<or>
           byte_in 0xED 0xED a \<and> byte_in 0x80 0x9F b \<or>
           byte_in 0xEE 0xEF a \<and> byte_in 0x80 0xBF b) \<and> byte_in 0x80 0xBF c)"
  "well_formed_seq [a, b, c, d] =
          ((byte_in 0xF0 0xF0 a \<and> byte_in 0x90 0xBF b \<or>
           byte_in 0xF1 0xF3 a \<and> byte_in 0x80 0xBF b \<or>
           byte_in 0xF4 0xF4 a \<and> byte_in 0x80 0x8F b) \<and>
          byte_in 0x80 0xBF c \<and> byte_in 0x80 0xBF d)"
  by (simp_all add: well_formed_seq_def)

lemma nul_facts: "\<not> byte_in 0x80 0xBF NUL" "classify_lead NUL" "\<not> byte_in 0xA0 0xBF NUL"
  "\<not> byte_in 0x80 0x9F NUL" "\<not> byte_in 0x90 0xBF NUL" "\<not> byte_in 0x80 0x8F NUL"
  by (simp_all add: byte_in_def classify_lead_def)

lemmas u8code = utf8len_def utf8len2_def utf8len3_def utf8len4_def peek_def Let_def
  is_utf8tail_range firstb_lead
lemmas u8spec = decode_at_def wf_simps resync_skip_def lead_len_def

lemma d4: "utf8len (a # b # c # d # t) = Some (decode_at (a # b # c # d # t))"
proof (cases a rule: lead_cases)
  case 1 then show ?thesis by (simp add: u8code u8spec nul_facts byte_in_def[of _ _ a] classify_lead_def[of a])
next
  case 2 then show ?thesis by (simp add: u8code u8spec nul_facts byte_in_def[of _ _ a] classify_lead_def[of a])
next
  case 3 then show ?thesis by (simp add: u8code u8spec nul_facts byte_in_def[of _ _ a] classify_lead_def[of a])
next
  case 4 then show ?thesis by (simp add: u8code u8spec nul_facts byte_in_def[of _ _ a] classify_lead_def[of a])
next
  case 5 then show ?thesis by (simp add: u8code u8spec nul_facts byte_in_def[of _ _ a] classify_lead_def[of a])
next
  case 6 then show ?thesis by (simp add: u8code u8spec nul_facts byte_in_def[of _ _ a] classify_lead_def[of a])
next
  case 7 then show ?thesis by (simp add: u8code u8spec nul_facts byte_in_def[of _ _ a] classify_lead_def[of a])
next
  case 8 then show ?thesis by (simp add: u8code u8spec nul_facts byte_in_def[of _ _ a] classify_lead_def[of a])
next
  case 9 then show ?thesis by (simp add: u8code u8spec nul_facts byte_in_def[of _ _ a] classify_lead_def[of a])
next
  case 10 then show ?thesis by (simp add: u8code u8spec nul_facts byte_in_def[of _ _ a] classify_lead_def[of a])
next
  case 11 then show ?thesis by (simp add: u8code u8spec nul_facts byte_in_def[of _ _ a] classify_lead_def[of a])
qed

lemma d3: "utf8len ([a, b, NUL]) = Some (decode_at ([a, b, NUL]))"
proof (cases a rule: lead_cases)
  case 1 then show ?thesis by (simp add: u8code u8spec nul_facts byte_in_def[of _ _ a] classify_lead_def[of a])
next
  case 2 then show ?thesis by (simp add: u8code u8spec nul_facts byte_in_def[of _ _ a] classify_lead_def[of a])
next
  case 3 then show ?thesis by (simp add: u8code u8spec nul_facts byte_in_def[of _ _ a] classify_lead_def[of a])
next
  case 4 then show ?thesis by (simp add: u8code u8spec nul_facts byte_in_def[of _ _ a] classify_lead_def[of a])
next
  case 5 then show ?thesis by (simp add: u8code u8spec nul_facts byte_in_def[of _ _ a] classify_lead_def[of a])
next
  case 6 then show ?thesis by (simp add: u8code u8spec nul_facts byte_in_def[of _ _ a] classify_lead_def[of a])
next
  case 7 then show ?thesis by (simp add: u8code u8spec nul_facts byte_in_def[of _ _ a] classify_lead_def[of a])
next
  case 8 then show ?thesis by (simp add: u8code u8spec nul_facts byte_in_def[of _ _ a] classify_lead_def[of a])
next
  case 9 then show ?thesis by (simp add: u8code u8spec nul_facts byte_in_def[of _ _ a] classify_lead_def[of a])
next
  case 10 then show ?thesis by (simp add: u8code u8spec nul_facts byte_in_def[of _ _ a] classify_lead_def[of a])
next
  case 11 then show ?thesis by (simp add: u8code u8spec nul_facts byte_in_def[of _ _ a] classify_lead_def[of a])
qed

lemma d2: "utf8len ([a, NUL]) = Some (decode_at ([a, NUL]))"
proof (cases a rule: lead_cases)
  case 1 then show ?thesis by (simp add: u8code u8spec nul_facts byte_in_def[of _ _ a] classify_lead_def[of a])
next
  case 2 then show ?thesis by (simp add: u8code u8spec nul_facts byte_in_def[of _ _ a] classify_lead_def[of a])
next
  case 3 then show ?thesis by (simp add: u8code u8spec nul_facts byte_in_def[of _ _ a] classify_lead_def[of a])
next
  case 4 then show ?thesis by (simp add: u8code u8spec nul_facts byte_in_def[of _ _ a] classify_lead_def[of a])
next
  case 5 then show ?thesis by (simp add: u8code u8spec nul_facts byte_in_def[of _ _ a] classify_lead_def[of a])
next
  case 6 then show ?thesis by (simp add: u8code u8spec nul_facts byte_in_def[of _ _ a] classify_lead_def[of a])
next
  case 7 then show ?thesis by (simp add: u8code u8spec nul_facts byte_in_def[of _ _ a] classify_lead_def[of a])
next
  case 8 then show ?thesis by (simp add: u8code u8spec nul_facts byte_in_def[of _ _ a] classify_lead_def[of a])
next
  case 9 then show ?thesis by (simp add: u8code u8spec nul_facts byte_in_def[of _ _ a] classify_lead_def[of a])
next
  case 10 then show ?thesis by (simp add: u8code u8spec nul_facts byte_in_def[of _ _ a] classify_lead_def[of a])
next
  case 11 then show ?thesis by (simp add: u8code u8spec nul_facts byte_in_def[of _ _ a] classify_lead_def[of a])
qed

lemma d1: "utf8len [NUL] = Some (decode_at [NUL])"
  by (simp add: u8code u8spec byte_in_def)

lemma nulterm_shapes:
  assumes "s \<noteq> []" "last s = NUL"
  obtains "s = [NUL]" | a where "s = [a, NUL]" | a b where "s = [a, b, NUL]"
  | a b c d t where "s = a # b # c # d # t"
proof (cases s)
  case Nil with assms show ?thesis by simp
next
  case (Cons a s1)
  show ?thesis
  proof (cases s1)
    case Nil with Cons assms that(1) show ?thesis by simp
  next
    case (Cons b s2)
    note c2 = this
    show ?thesis
    proof (cases s2)
      case Nil with c2 \<open>s = a # s1\<close> assms that(2) show ?thesis by simp
    next
      case (Cons c s3)
      note c3 = this
      show ?thesis
      proof (cases s3)
        case Nil with c3 c2 \<open>s = a # s1\<close> assms that(3) show ?thesis by simp
      next
        case (Cons d s4) with c3 c2 \<open>s = a # s1\<close> that(4) show ?thesis by simp
      qed
    qed
  qed
qed

lemma utf8len_decode:
  assumes "s \<noteq> []" "last s = NUL"
  shows "utf8len s = Some (decode_at s)"
  using assms by (cases s rule: nulterm_shapes) (simp_all add: d1 d2 d3 d4)

lemma wf_length: "well_formed_seq bs \<Longrightarrow> 1 \<le> length bs \<and> length bs \<le> 4"
  by (auto simp: well_formed_seq_def split: list.splits)

lemma wf_take:
  assumes "well_formed_seq (take n s)"
  shows "well_formed_seq (take 1 s) \<or> well_formed_seq (take 2 s) \<or> well_formed_seq (take 3 s)
     \<or> well_formed_seq (take 4 s)"
proof -
  let ?m = "length (take n s)"
  have m: "1 \<le> ?m \<and> ?m \<le> 4" using assms by (rule wf_length)
  have "take ?m s = take n s" by (simp add: min_def)
  with assms have w: "well_formed_seq (take ?m s)" by simp
  from m consider "?m = 1" | "?m = 2" | "?m = 3" | "?m = 4" by linarith
  then show ?thesis
  proof cases
    case 1 with w show ?thesis by simp
  next
    case 2 with w show ?thesis by simp
  next
    case 3 with w show ?thesis by simp
  next
    case 4 with w show ?thesis by simp
  qed
qed

lemma decode_at_pos: "(0 < decode_at s) = (\<exists>n. well_formed_seq (take n s))"
proof
  assume "0 < decode_at s"
  then show "\<exists>n. well_formed_seq (take n s)"
    unfolding decode_at_def by (auto split: if_splits)
next
  assume "\<exists>n. well_formed_seq (take n s)"
  then obtain n where "well_formed_seq (take n s)" ..
  from wf_take[OF this] show "0 < decode_at s" unfolding decode_at_def by auto
qed

lemma decode_at_wf: "0 < decode_at s \<Longrightarrow> decode_at s \<le> 4 \<and> well_formed_seq (take (nat (decode_at s)) s)"
  unfolding decode_at_def by (auto split: if_splits)

lemma decode_at_neg: "\<not> 0 < decode_at s \<Longrightarrow> decode_at s = - int (resync_skip s)"
  unfolding decode_at_def by (auto split: if_splits)


text \<open>
  Claim C3. At every cursor \<open>k\<close> of a NUL-terminated buffer the decoder returns a value
  \<open>r\<close>; \<open>r\<close> is positive exactly when some prefix of the bytes at the cursor is a row of
  Table 3-7, and then \<open>r\<close> is at most 4 and the first \<open>r\<close> bytes are such a row; otherwise
  \<open>r\<close> is the negated resynchronisation skip. The lead-byte classifier is true exactly on
  \<open>00..7F\<close>, \<open>C2..DF\<close>, \<open>E0..EF\<close> and \<open>F0..F4\<close>.
\<close>

theorem utf8len_follows_table:
  assumes "k \<le> length bs"
  shows "\<exists>r. utf8len (drop k (bs @ [NUL])) = Some r
     \<and> (0 < r \<longleftrightarrow> (\<exists>n. well_formed_seq (take n (drop k (bs @ [NUL])))))
     \<and> (0 < r \<longrightarrow> r \<le> 4 \<and> well_formed_seq (take (nat r) (drop k (bs @ [NUL]))))
     \<and> (\<not> 0 < r \<longrightarrow> r = - int (resync_skip (drop k (bs @ [NUL]))))
     \<and> (\<forall>b. is_utf8firstb b \<longleftrightarrow>
            (of_char b :: nat) \<in> {0x00..0x7F} \<union> {0xC2..0xDF} \<union> {0xE0..0xEF} \<union> {0xF0..0xF4})"
proof -
  let ?s = "drop k (bs @ [NUL])"
  have "?s \<noteq> []" "last ?s = NUL" using assms by simp_all
  then have "utf8len ?s = Some (decode_at ?s)" by (rule utf8len_decode)
  moreover have "\<forall>b. is_utf8firstb b \<longleftrightarrow>
            (of_char b :: nat) \<in> {0x00..0x7F} \<union> {0xC2..0xDF} \<union> {0xE0..0xEF} \<union> {0xF0..0xF4}"
    by (simp add: is_utf8firstb_def Let_def)
  ultimately show ?thesis
    using decode_at_pos[of ?s] decode_at_wf[of ?s] decode_at_neg[of ?s] by blast
qed

theorem utf8len_follows_table_witness:
  "(0::nat) \<le> length [CHR 0xE2, CHR 0x82, CHR 0xAC]
   \<and> utf8len (drop 0 ([CHR 0xE2, CHR 0x82, CHR 0xAC] @ [NUL])) = Some 3"
  using utf8len_follows_table[of 0 "[CHR 0xE2, CHR 0x82, CHR 0xAC]"]
  by (simp add: u8code byte_in_def)



section \<open>Properties of the quoted-string encoder\<close>

lemma wf_last:
  assumes "well_formed_seq bs" "2 \<le> length bs"
  shows "last bs \<noteq> NUL"
  using assms nul_facts(1)
  by (auto simp: well_formed_seq_def split: list.splits)

lemma takeWhile_take_le: "length (takeWhile P (take n xs)) \<le> length (takeWhile P xs)"
proof (induction xs arbitrary: n)
  case Nil show ?case by simp
next
  case (Cons x xs)
  show ?case by (cases n) (use Cons in auto)
qed

lemma takeWhile_stops:
  assumes "t \<noteq> []" "\<not> P (last t)"
  shows "length (takeWhile P t) < length t"
proof -
  have "last t \<in> set t" using assms(1) by simp
  with assms(2) have "\<not> (\<forall>x\<in>set t. P x)" by blast
  then have "takeWhile P t \<noteq> t" by simp
  moreover have "length (takeWhile P t) \<le> length t" by (rule length_takeWhile_le)
  ultimately show ?thesis
    by (metis le_neq_implies_less takeWhile_eq_take take_all_iff le_refl)
qed

lemma resync_skip_bound:
  assumes "2 \<le> length s" "last s = NUL"
  shows "1 \<le> resync_skip s \<and> resync_skip s \<le> length s - 1"
proof -
  from assms(1) obtain a t where s: "s = a # t" and t: "t \<noteq> []"
    by (cases s) fastforce+
  with assms(2) have "last t = NUL" by simp
  then have "\<not> (\<lambda>c. \<not> classify_lead c) (last t)" by (simp add: nul_facts)
  from takeWhile_stops[of t "\<lambda>c. \<not> classify_lead c", OF t this]
  have "length (takeWhile (\<lambda>c. \<not> classify_lead c) t) < length t" .
  with takeWhile_take_le[of "\<lambda>c. \<not> classify_lead c" "lead_len a - 1" t]
  show ?thesis by (simp add: resync_skip_def s)
qed

lemma decode_at_bound:
  assumes "2 \<le> length s" "last s = NUL"
  shows "1 \<le> \<bar>decode_at s\<bar> \<and> \<bar>decode_at s\<bar> \<le> int (length s) - 1"
proof (cases "0 < decode_at s")
  case True
  from decode_at_wf[OF True] have w: "well_formed_seq (take (nat (decode_at s)) s)" by simp
  have "nat (decode_at s) < length s"
  proof (rule ccontr)
    assume "\<not> nat (decode_at s) < length s"
    then have "take (nat (decode_at s)) s = s" by simp
    with w have "well_formed_seq s" by simp
    from wf_last[OF this assms(1)] assms(2) show False by simp
  qed
  with True show ?thesis by linarith
next
  case False
  from decode_at_neg[OF False] resync_skip_bound[OF assms] show ?thesis by linarith
qed

lemma quote_byte_Some:
  assumes "2 \<le> length s"
  shows "\<exists>e. quote_byte s = Some e"
proof -
  from assms obtain a b t where "s = a # b # t"
    by (cases s; cases "tl s") fastforce+
  then show ?thesis by (simp add: quote_byte_def peek_def)
qed

lemma quote_step_nulterm:
  assumes "k < length str"
  shows "\<exists>j b'. 1 \<le> j \<and> k + j \<le> length str \<and>
     quote_step (drop k (str @ [NUL])) (length str - k) b
       = Inr (drop (k + j) (str @ [NUL]), length str - (k + j), b')"
proof -
  define s where "s = drop k (str @ [NUL])"
  define len where "len = length str - k"
  define d where "d = decode_at s"
  have ne: "s \<noteq> []" and la: "last s = NUL" and ls: "length s = len + 1" and l0: "0 < len"
    using assms by (simp_all add: s_def len_def)
  have two: "2 \<le> length s" using ls l0 by linarith
  have u: "utf8len s = Some d" unfolding d_def using ne la by (rule utf8len_decode)
  from decode_at_bound[OF two la]
  have bd: "1 \<le> \<bar>d\<bar>" "\<bar>d\<bar> \<le> int len"
    using ls by (simp_all add: d_def)
  from quote_byte_Some[OF two] obtain e where e: "quote_byte s = Some e" ..
  have dr: "\<And>j. drop j s = drop (k + j) (str @ [NUL])"
    unfolding s_def by (simp only: drop_drop add.commute)
  have ln: "\<And>j. j \<le> len \<Longrightarrow> size_sub len j = length str - (k + j)"
    by (simp add: size_sub_def len_def)
  have kj: "\<And>j. j \<le> len \<Longrightarrow> k + j \<le> length str"
    using assms by (simp add: len_def)
  consider "d < 0" | "1 < d" | "d = 1"
    using bd(1) by linarith
  then have "\<exists>j b'. 1 \<le> j \<and> j \<le> len \<and> quote_step s len b = Inr (drop j s, size_sub len j, b')"
  proof cases
    case 1
    then have "1 \<le> nat (- d)" "nat (- d) \<le> len" using bd by linarith+
    moreover have "quote_step s len b
       = Inr (drop (nat (- d)) s, size_sub len (nat (- d)), b @ replacement)"
      using 1 u by (simp add: quote_step_def)
    ultimately show ?thesis by blast
  next
    case 2
    then have j: "1 \<le> nat d" "nat d \<le> len" using bd by linarith+
    then have "nat d \<le> length s" using ls by linarith
    then have "quote_step s len b
       = Inr (drop (nat d) s, size_sub len (nat d), b @ take (nat d) s)"
      using 2 u by (simp add: quote_step_def)
    with j show ?thesis by blast
  next
    case 3
    have "quote_step s len b = Inr (drop 1 s, size_sub len 1, b @ e)"
      using 3 u e by (simp add: quote_step_def)
    moreover have "(1::nat) \<le> len" using l0 by simp
    ultimately show ?thesis by blast
  qed
  then obtain j b' where "1 \<le> j" "j \<le> len"
    "quote_step s len b = Inr (drop j s, size_sub len j, b')" by blast
  then have "1 \<le> j \<and> k + j \<le> length str \<and>
     quote_step (drop k (str @ [NUL])) (length str - k) b
       = Inr (drop (k + j) (str @ [NUL]), length str - (k + j), b')"
    using dr[of j] ln[of j] kj[of j] unfolding s_def len_def by simp
  then show ?thesis by blast
qed

lemma quote_reach_invariant:
  assumes "quote_reach (str @ [NUL], length str, b0) st"
  shows "\<exists>k b. k \<le> length str \<and> st = (drop k (str @ [NUL]), length str - k, b)"
  using assms
proof (induction rule: quote_reach.induct)
  case reach_start
  have "(str @ [NUL], length str, b0) = (drop 0 (str @ [NUL]), length str - 0, b0)" by simp
  then show ?case by blast
next
  case (reach_step s len b st')
  from reach_step.IH obtain k ba where k: "k \<le> length str"
    and eq: "(s, len, b) = (drop k (str @ [NUL]), length str - k, ba)" by blast
  from eq have s: "s = drop k (str @ [NUL])" and len: "len = length str - k" by simp_all
  from len \<open>len \<noteq> 0\<close> have "k < length str" by simp
  from quote_step_nulterm[OF this, of b] obtain j b' where j: "k + j \<le> length str"
    and "quote_step (drop k (str @ [NUL])) (length str - k) b
       = Inr (drop (k + j) (str @ [NUL]), length str - (k + j), b')" by blast
  with reach_step(3) have "st' = (drop (k + j) (str @ [NUL]), length str - (k + j), b')"
    unfolding s len by simp
  with j show ?case by blast
qed

lemma quote_loop_returns:
  "k \<le> length str \<Longrightarrow> \<exists>out. quote_loop (drop k (str @ [NUL])) (length str - k) b = Inr out"
proof (induction "length str - k" arbitrary: k b rule: less_induct)
  case less
  show ?case
  proof (cases "length str - k = 0")
    case True
    then show ?thesis by (simp add: quote_loop.simps)
  next
    case False
    then have "k < length str" by simp
    from quote_step_nulterm[OF this, of b] obtain j b' where
      j: "1 \<le> j" "k + j \<le> length str"
      and st: "quote_step (drop k (str @ [NUL])) (length str - k) b
       = Inr (drop (k + j) (str @ [NUL]), length str - (k + j), b')" by blast
    from j have "length str - (k + j) < length str - k" using \<open>k < length str\<close> by linarith
    from less(1)[OF this j(2), of b'] obtain out where
      "quote_loop (drop (k + j) (str @ [NUL])) (length str - (k + j)) b' = Inr out" ..
    with st False show ?thesis
      by (subst quote_loop.simps) simp
  qed
qed

text \<open>
  Claim C9. In every state the scan of a string \<open>str\<close> passes through with \<open>len\<close> not
  yet 0, \<open>len\<close> is the number of bytes of \<open>str\<close> not yet processed and \<open>s\<close> points to
  them; the decoder returns there (it reads nothing after the terminating NUL) a value of
  magnitude at least 1 and at most \<open>len\<close>, so that \<^verbatim>\<open>len -= nbyte\<close> does not wrap around;
  the turn of the loop succeeds; and the whole scan returns a result.
\<close>

theorem quote_scan_safe:
  assumes "quote_reach (str @ [NUL], length str, [DQUOTE]) (s, len, b)" and "len \<noteq> 0"
  shows "len \<le> length str \<and> s = drop (length str - len) (str @ [NUL])
         \<and> (\<exists>n. utf8len s = Some n \<and> 1 \<le> \<bar>n\<bar> \<and> \<bar>n\<bar> \<le> int len)
         \<and> (\<exists>st'. quote_step s len b = Inr st')
         \<and> (\<exists>out. quote_loop (str @ [NUL]) (length str) [DQUOTE] = Inr out)"
proof -
  from quote_reach_invariant[OF assms(1)] obtain k where k: "k \<le> length str"
    and s: "s = drop k (str @ [NUL])" and len: "len = length str - k" by auto
  from len assms(2) have klt: "k < length str" by simp
  have a: "len \<le> length str \<and> s = drop (length str - len) (str @ [NUL])"
    using k s len by simp
  have two: "2 \<le> length s" and la: "last s = NUL" and ne: "s \<noteq> []"
    using klt by (simp_all add: s)
  have ls: "int (length s) - 1 = int len" using klt by (simp add: s len)
  have "utf8len s = Some (decode_at s)" using ne la by (rule utf8len_decode)
  with decode_at_bound[OF two la] ls
  have b: "\<exists>n. utf8len s = Some n \<and> 1 \<le> \<bar>n\<bar> \<and> \<bar>n\<bar> \<le> int len" by simp
  from quote_step_nulterm[OF klt, of b]
  have c: "\<exists>st'. quote_step s len b = Inr st'" unfolding s len by blast
  from quote_loop_returns[of 0 str "[DQUOTE]"]
  have d: "\<exists>out. quote_loop (str @ [NUL]) (length str) [DQUOTE] = Inr out" by simp
  from a b c d show ?thesis by blast
qed

theorem quote_scan_safe_witness:
  "quote_reach ([NUL, CHR 0xE2, CHR 0x82] @ [NUL], length [NUL, CHR 0xE2, CHR 0x82], [DQUOTE])
      ([NUL, CHR 0xE2, CHR 0x82] @ [NUL], length [NUL, CHR 0xE2, CHR 0x82], [DQUOTE])
   \<and> length [NUL, CHR 0xE2, CHR 0x82] \<noteq> 0
   \<and> (\<exists>n. utf8len ([NUL, CHR 0xE2, CHR 0x82] @ [NUL]) = Some n \<and> 1 \<le> \<bar>n\<bar>
          \<and> \<bar>n\<bar> \<le> int (length [NUL, CHR 0xE2, CHR 0x82]))
   \<and> (\<exists>out. quote_loop ([NUL, CHR 0xE2, CHR 0x82] @ [NUL]) (length [NUL, CHR 0xE2, CHR 0x82])
          [DQUOTE] = Inr out)"
proof -
  have r: "quote_reach ([NUL, CHR 0xE2, CHR 0x82] @ [NUL], length [NUL, CHR 0xE2, CHR 0x82], [DQUOTE])
      ([NUL, CHR 0xE2, CHR 0x82] @ [NUL], length [NUL, CHR 0xE2, CHR 0x82], [DQUOTE])"
    by (rule reach_start)
  have n: "length [NUL, CHR 0xE2, CHR 0x82] \<noteq> 0" by simp
  from quote_scan_safe[OF r n] r n show ?thesis by blast
qed


lemma digit_char: "d < 10 \<Longrightarrow> (of_char (char_of (0x30 + d :: nat)) :: nat) = 0x30 + d"
  by simp

lemma isdigit_digit: "d < 10 \<Longrightarrow> isdigit (char_of (0x30 + d :: nat))"
  by (simp add: isdigit_def)

lemma dec_digits_isdigit: "list_all isdigit (dec_digits n)"
proof (induction n rule: dec_digits.induct)
  case (1 n)
  show ?case
  proof (cases "n < 10")
    case True
    then show ?thesis by (subst dec_digits.simps) (simp add: isdigit_digit)
  next
    case False
    have "isdigit (char_of (0x30 + n mod 10))" by (rule isdigit_digit) simp
    with False "1.IH" show ?thesis by (subst dec_digits.simps) simp
  qed
qed

lemma dec_value_snoc: "dec_value (ds @ [d]) = 10 * dec_value ds + ((of_char d :: nat) - 0x30)"
  by (simp add: dec_value_def)

lemma dec_value_dec_digits: "dec_value (dec_digits n) = n"
proof (induction n rule: dec_digits.induct)
  case (1 n)
  show ?case
  proof (cases "n < 10")
    case True
    then show ?thesis by (subst dec_digits.simps) (simp add: dec_value_def)
  next
    case False
    have "(of_char (char_of (0x30 + n mod 10)) :: nat) = 0x30 + n mod 10"
      by (rule digit_char) simp
    with False "1.IH" show ?thesis
      by (subst dec_digits.simps) (simp add: dec_value_snoc)
  qed
qed

lemma dec_digits_nonempty: "dec_digits n \<noteq> []"
  by (subst dec_digits.simps) simp

lemma dec_digits_length: "n < 1000 \<Longrightarrow> length (dec_digits n) \<le> 3"
  by (subst dec_digits.simps, subst dec_digits.simps, subst dec_digits.simps) simp

lemma dec_digits_hd: "0 < n \<Longrightarrow> hd (dec_digits n) \<noteq> CHR ''0''"
proof (induction n rule: dec_digits.induct)
  case (1 n)
  show ?case
  proof (cases "n < 10")
    case True
    have "(of_char (char_of (0x30 + n)) :: nat) = 0x30 + n" using True by (rule digit_char)
    have "char_of (0x30 + n) \<noteq> CHR ''0''"
    proof
      assume "char_of (0x30 + n) = CHR ''0''"
      then have "(of_char (char_of (0x30 + n)) :: nat) = of_char (CHR ''0'')" by (rule arg_cong)
      with \<open>(of_char (char_of (0x30 + n)) :: nat) = 0x30 + n\<close> "1.prems" show False by simp
    qed
    with True show ?thesis by (subst dec_digits.simps) simp
  next
    case False
    then have "0 < n div 10" by simp
    with False "1.IH" have "hd (dec_digits (n div 10)) \<noteq> CHR ''0''" by simp
    with False show ?thesis by (subst dec_digits.simps) (simp add: dec_digits_nonempty)
  qed
qed

lemma dec_value_zeros: "dec_value (replicate k (CHR ''0'') @ ds) = dec_value ds"
  by (induction k) (simp_all add: dec_value_def)

lemma show_03d_facts:
  assumes "n < 1000"
  shows "length (show_03d n) = 3" "list_all isdigit (show_03d n)" "dec_value (show_03d n) = n"
proof -
  have z: "list_all isdigit (replicate k (CHR ''0''))" for k
    by (induction k) (simp_all add: isdigit_def)
  show "length (show_03d n) = 3"
    using dec_digits_length[OF assms] by (simp add: show_03d_def)
  show "list_all isdigit (show_03d n)"
    using dec_digits_isdigit[of n] z by (simp add: show_03d_def)
  show "dec_value (show_03d n) = n"
    by (simp add: show_03d_def dec_value_zeros dec_value_dec_digits)
qed

lemma unnamed_control_ascii: "unnamed_control c \<Longrightarrow> (of_char c :: nat) \<le> 0x7F"
  by (auto simp: unnamed_control_def iscntrl_def)

lemma utf8len_ascii: "(of_char c :: nat) \<le> 0x7F \<Longrightarrow> utf8len (c # t) = Some 1"
  by (simp add: utf8len_def peek_def)

lemma quote_byte_unnamed:
  assumes "unnamed_control c"
  shows "quote_byte (c # d # rest) =
      Some (BSLASH # (if isdigit d then show_03d (of_char c) else dec_digits (of_char c)))"
proof -
  have "c \<noteq> DQUOTE" "c \<noteq> BSLASH" using assms
    by (auto simp: unnamed_control_def iscntrl_def)
  with assms show ?thesis
    by (simp add: quote_byte_def peek_def unnamed_control_def)
qed

lemma quote_byte_eq:
  "quote_byte (c # d # rest) =
     Some (if c = DQUOTE \<or> c = BSLASH then [BSLASH, c]
           else if \<not> iscntrl c then [c]
           else if (of_char c :: nat) = 0 then [BSLASH, CHR ''0'']
           else if (of_char c :: nat) = 7 then [BSLASH, CHR ''a'']
           else if (of_char c :: nat) = 8 then [BSLASH, CHR ''b'']
           else if (of_char c :: nat) = 9 then [BSLASH, CHR ''t'']
           else if (of_char c :: nat) = 10 then [BSLASH, CHR ''n'']
           else if (of_char c :: nat) = 11 then [BSLASH, CHR ''v'']
           else if (of_char c :: nat) = 12 then [BSLASH, CHR ''f'']
           else if (of_char c :: nat) = 13 then [BSLASH, CHR ''r'']
           else if \<not> isdigit d then BSLASH # dec_digits (of_char c)
           else BSLASH # show_03d (of_char c))"
  by (simp add: quote_byte_def peek_def)

lemma wf_tail_range:
  assumes "well_formed_seq bs" "x \<in> set (tl bs)"
  shows "byte_in 0x80 0xBF x"
proof -
  have r: "byte_in 0xA0 0xBF y \<Longrightarrow> byte_in 0x80 0xBF y"
    "byte_in 0x80 0x9F y \<Longrightarrow> byte_in 0x80 0xBF y"
    "byte_in 0x90 0xBF y \<Longrightarrow> byte_in 0x80 0xBF y"
    "byte_in 0x80 0x8F y \<Longrightarrow> byte_in 0x80 0xBF y" for y
    by (simp_all add: byte_in_def)
  from assms show ?thesis
    unfolding well_formed_seq_def
    by (auto split: list.splits dest: r)
qed

lemma wf_not_across:
  assumes "p \<noteq> []" "\<not> byte_in 0x80 0xBF x"
  shows "\<not> well_formed_seq (p @ x # r)"
proof
  assume w: "well_formed_seq (p @ x # r)"
  from assms(1) have "x \<in> set (tl (p @ x # r))" by (cases p) simp_all
  from wf_tail_range[OF w this] assms(2) show False by simp
qed

lemma wf_take_prefix:
  assumes "p \<noteq> []" "\<not> byte_in 0x80 0xBF c"
  shows "well_formed_seq (take n (p @ c # t)) = well_formed_seq (take n (p @ [NUL]))"
proof (cases "n \<le> length p")
  case True
  then show ?thesis by simp
next
  case False
  then have a: "take n (p @ c # t) = p @ c # take (n - Suc (length p)) t"
    by (simp add: take_Cons')
  from False have b: "take n (p @ [NUL]) = p @ NUL # []" by simp
  show ?thesis unfolding a b
    using wf_not_across[OF assms] wf_not_across[OF assms(1) nul_facts(1)] by simp
qed

lemma takeWhile_take_stop:
  assumes "\<not> P x"
  shows "takeWhile P (take k (xs @ x # t)) = takeWhile P (take k xs)"
proof (induction xs arbitrary: k)
  case Nil
  show ?case using assms by (cases k) simp_all
next
  case (Cons y ys)
  show ?case by (cases k) (simp_all add: Cons.IH del: take_append)
qed

lemma resync_skip_prefix:
  assumes "p \<noteq> []" "classify_lead c"
  shows "resync_skip (p @ c # t) = resync_skip (p @ [NUL])"
proof -
  from assms(1) obtain a p' where p: "p = a # p'" by (cases p) simp_all
  have "takeWhile (\<lambda>c. \<not> classify_lead c) (take (lead_len a - 1) (p' @ c # t))
      = takeWhile (\<lambda>c. \<not> classify_lead c) (take (lead_len a - 1) p')"
    by (rule takeWhile_take_stop) (simp add: assms(2))
  moreover have "takeWhile (\<lambda>c. \<not> classify_lead c) (take (lead_len a - 1) (p' @ NUL # []))
      = takeWhile (\<lambda>c. \<not> classify_lead c) (take (lead_len a - 1) p')"
    by (rule takeWhile_take_stop) (simp add: nul_facts)
  ultimately show ?thesis by (simp add: resync_skip_def p)
qed

lemma decode_at_prefix:
  assumes "p \<noteq> []" "classify_lead c" "\<not> byte_in 0x80 0xBF c"
  shows "decode_at (p @ c # t) = decode_at (p @ [NUL])"
  unfolding decode_at_def
  by (simp only: wf_take_prefix[OF assms(1,3)] resync_skip_prefix[OF assms(1,2)])

lemma utf8len_prefix:
  assumes "p \<noteq> []" "classify_lead c" "\<not> byte_in 0x80 0xBF c"
  shows "utf8len (p @ c # post @ [NUL]) = utf8len (p @ [NUL])"
proof -
  have "utf8len (p @ c # post @ [NUL]) = Some (decode_at (p @ c # post @ [NUL]))"
    by (rule utf8len_decode) simp_all
  moreover have "utf8len (p @ [NUL]) = Some (decode_at (p @ [NUL]))"
    by (rule utf8len_decode) simp_all
  ultimately show ?thesis using decode_at_prefix[OF assms] by simp
qed

lemma quote_byte_prefix:
  assumes "p \<noteq> []" "\<not> isdigit c"
  shows "quote_byte (p @ c # t) = quote_byte (p @ [NUL])"
proof -
  have n: "\<not> isdigit NUL" by (simp add: isdigit_def)
  from assms(1) obtain a p' where p: "p = a # p'" by (cases p) simp_all
  show ?thesis
  proof (cases p')
    case Nil
    with p assms(2) n show ?thesis by (simp add: quote_byte_eq)
  next
    case (Cons b p'')
    with p show ?thesis by (simp add: quote_byte_eq)
  qed
qed

lemma quote_step_prefix:
  assumes p: "p \<noteq> []" and c: "classify_lead c" "\<not> byte_in 0x80 0xBF c" "\<not> isdigit c"
  shows "\<exists>j b'. 1 \<le> j \<and> j \<le> length p
     \<and> quote_step (p @ [NUL]) (length p) b = Inr (drop j p @ [NUL], length p - j, b')
     \<and> quote_step (p @ c # post @ [NUL]) (length p + k) b
         = Inr (drop j p @ c # post @ [NUL], length p - j + k, b')"
proof -
  define d where "d = decode_at (p @ [NUL])"
  have two: "2 \<le> length (p @ [NUL])" using p by (cases p) simp_all
  have u1: "utf8len (p @ [NUL]) = Some d" unfolding d_def by (rule utf8len_decode) simp_all
  have u2: "utf8len (p @ c # post @ [NUL]) = Some d"
    using utf8len_prefix[OF p c(1,2)] u1 by simp
  from decode_at_bound[OF two] have bd: "1 \<le> \<bar>d\<bar>" "\<bar>d\<bar> \<le> int (length p)"
    by (simp_all add: d_def)
  from quote_byte_Some[OF two] obtain e where e1: "quote_byte (p @ [NUL]) = Some e" ..
  then have e2: "quote_byte (p @ c # post @ [NUL]) = Some e"
    using quote_byte_prefix[OF p c(3)] by simp
  have st: "quote_step (p @ [NUL]) (length p) b = Inr (drop j p @ [NUL], length p - j, b')
     \<and> quote_step (p @ c # post @ [NUL]) (length p + k) b
         = Inr (drop j p @ c # post @ [NUL], length p - j + k, b')"
    if "d < 0 \<and> j = nat (- d) \<and> b' = b @ replacement
        \<or> 1 < d \<and> j = nat d \<and> b' = b @ take j p
        \<or> d = 1 \<and> j = 1 \<and> b' = b @ e" for j b'
  proof -
    from that bd have j: "1 \<le> j" "j \<le> length p" by auto
    from that show ?thesis
      using j u1 u2 e1 e2 by (auto simp: quote_step_def size_sub_def)
  qed
  consider "d < 0" | "1 < d" | "d = 1" using bd(1) by linarith
  then show ?thesis
  proof cases
    case 1
    with bd have "1 \<le> nat (- d)" "nat (- d) \<le> length p" by linarith+
    with st[of "nat (- d)" "b @ replacement"] 1 show ?thesis by blast
  next
    case 2
    with bd have "1 \<le> nat d" "nat d \<le> length p" by linarith+
    with st[of "nat d" "b @ take (nat d) p"] 2 show ?thesis by blast
  next
    case 3
    from p have "(1::nat) \<le> length p" by (cases p) simp_all
    with st[of 1 "b @ e"] 3 show ?thesis by blast
  qed
qed

lemma quote_loop_prefix:
  assumes c: "classify_lead c" "\<not> byte_in 0x80 0xBF c" "\<not> isdigit c"
    and r: "quote_loop (p @ [NUL]) (length p) b = Inr out"
  shows "quote_loop (p @ c # post @ [NUL]) (length p + k) b = quote_loop (c # post @ [NUL]) k out"
  using r
proof (induction "length p" arbitrary: p b rule: less_induct)
  case less
  show ?case
  proof (cases "p = []")
    case True
    with less.prems show ?thesis by (simp add: quote_loop.simps[of "[NUL]"])
  next
    case False
    from quote_step_prefix[OF False c, of b post k] obtain j b' where
      j: "1 \<le> j" "j \<le> length p"
      and s1: "quote_step (p @ [NUL]) (length p) b = Inr (drop j p @ [NUL], length p - j, b')"
      and s2: "quote_step (p @ c # post @ [NUL]) (length p + k) b
         = Inr (drop j p @ c # post @ [NUL], length p - j + k, b')" by blast
    from False have lp: "length p \<noteq> 0" by simp
    have "quote_loop (p @ [NUL]) (length p) b = quote_loop (drop j p @ [NUL]) (length p - j) b'"
      using lp s1 by (subst quote_loop.simps) simp
    with less.prems have r': "quote_loop (drop j p @ [NUL]) (length (drop j p)) b' = Inr out"
      by simp
    have sh: "length (drop j p) < length p" using j False by simp
    from less.hyps[OF sh r']
    have "quote_loop (drop j p @ c # post @ [NUL]) (length (drop j p) + k) b'
        = quote_loop (c # post @ [NUL]) k out" .
    moreover have "quote_loop (p @ c # post @ [NUL]) (length p + k) b
        = quote_loop (drop j p @ c # post @ [NUL]) (length p - j + k) b'"
      using lp s2 by (subst quote_loop.simps) simp
    ultimately show ?thesis by simp
  qed
qed

lemma quote_step_acc:
  assumes "quote_step s len b = Inr (s', len', b')"
  shows "quote_step s len (a @ b) = Inr (s', len', a @ b')"
  using assms unfolding quote_step_def
  by (auto split: option.splits if_splits)

lemma quote_loop_acc:
  "quote_loop s len b = Inr out \<Longrightarrow> quote_loop s len (a @ b) = Inr (a @ out)"
proof (induction s len b arbitrary: out rule: quote_loop.induct)
  case (1 s len b)
  show ?case
  proof (cases "len = 0")
    case True
    with "1.prems" show ?thesis by (simp add: quote_loop.simps)
  next
    case False
    with "1.prems" obtain s' len' b' where st: "quote_step s len b = Inr (s', len', b')"
      and r: "quote_loop s' len' b' = Inr out"
      by (subst (asm) quote_loop.simps) (auto split: sum.splits)
    from "1.IH"[OF False st refl refl r] have "quote_loop s' len' (a @ b') = Inr (a @ out)" .
    with False quote_step_acc[OF st, of a] show ?thesis
      by (subst quote_loop.simps) simp
  qed
qed

lemma unnamed_control_facts:
  assumes "unnamed_control c"
  shows "classify_lead c" "\<not> byte_in 0x80 0xBF c" "\<not> isdigit c"
  using assms
  by (auto simp: unnamed_control_def iscntrl_def classify_lead_def byte_in_def isdigit_def)

lemma quote_bytes_at_control:
  assumes "unnamed_control c"
  shows "\<exists>before after.
           quote_bytes pre = Inr (DQUOTE # before @ [DQUOTE])
         \<and> quote_bytes post = Inr (DQUOTE # after @ [DQUOTE])
         \<and> quote_bytes (pre @ c # post)
             = Inr (DQUOTE # before
                    @ BSLASH # (if post \<noteq> [] \<and> isdigit (hd post) then show_03d (of_char c)
                                else dec_digits (of_char c))
                    @ after @ [DQUOTE])"
proof -
  let ?esc = "BSLASH # (if post \<noteq> [] \<and> isdigit (hd post) then show_03d (of_char c)
                                else dec_digits (of_char c))"
  note cf = unnamed_control_facts[OF assms]
  from quote_loop_returns[of 0 pre "[]"] obtain r1 where
    r1: "quote_loop (pre @ [NUL]) (length pre) [] = Inr r1" by auto
  from quote_loop_returns[of 0 post "[]"] obtain r2 where
    r2: "quote_loop (post @ [NUL]) (length post) [] = Inr r2" by auto
  from quote_loop_acc[OF r1, of "[DQUOTE]"]
  have o1: "quote_loop (pre @ [NUL]) (length pre) [DQUOTE] = Inr (DQUOTE # r1)" by simp
  from quote_loop_acc[OF r2, of "[DQUOTE]"]
  have o2: "quote_loop (post @ [NUL]) (length post) [DQUOTE] = Inr (DQUOTE # r2)" by simp
  obtain d rest where dr: "post @ [NUL] = d # rest" by (cases post) simp_all
  have dg: "isdigit d \<longleftrightarrow> post \<noteq> [] \<and> isdigit (hd post)"
    using dr by (cases post) (auto simp: isdigit_def)
  have st: "quote_step (c # d # rest) (Suc (length post)) (DQUOTE # r1)
       = Inr (d # rest, length post, (DQUOTE # r1) @ ?esc)"
    using utf8len_ascii[OF unnamed_control_ascii[OF assms], of "d # rest"]
      quote_byte_unnamed[OF assms, of d rest] dg
    by (simp add: quote_step_def size_sub_def)
  from quote_loop_acc[OF r2, of "(DQUOTE # r1) @ ?esc"]
  have tl: "quote_loop (post @ [NUL]) (length post) ((DQUOTE # r1) @ ?esc)
       = Inr ((DQUOTE # r1) @ ?esc @ r2)" by simp
  have "quote_loop ((pre @ c # post) @ [NUL]) (length (pre @ c # post)) [DQUOTE]
      = quote_loop (pre @ c # post @ [NUL]) (length pre + Suc (length post)) [DQUOTE]" by simp
  also have "\<dots> = quote_loop (c # post @ [NUL]) (Suc (length post)) (DQUOTE # r1)"
    by (rule quote_loop_prefix[OF cf o1])
  also have "\<dots> = quote_loop (post @ [NUL]) (length post) ((DQUOTE # r1) @ ?esc)"
    unfolding dr using st by (subst quote_loop.simps) simp
  finally have "quote_loop ((pre @ c # post) @ [NUL]) (length (pre @ c # post)) [DQUOTE]
      = Inr ((DQUOTE # r1) @ ?esc @ r2)" using tl by simp
  then have w: "quote_bytes (pre @ c # post) = Inr (DQUOTE # r1 @ ?esc @ r2 @ [DQUOTE])"
    unfolding quote_bytes_def by simp
  have "quote_bytes pre = Inr (DQUOTE # r1 @ [DQUOTE])"
    "quote_bytes post = Inr (DQUOTE # r2 @ [DQUOTE])"
    using o1 o2 by (simp_all add: quote_bytes_def)
  with w show ?thesis by (intro exI[of _ r1] exI[of _ r2]) simp
qed

text \<open>
  Claim C8. A control byte \<open>c\<close> with no named escape, at any place of the string (after the
  bytes \<open>pre\<close>, before the bytes \<open>post\<close>), is the current byte of one turn of the scan, and
  the output of the encoder for the whole string is its output for \<open>pre\<close>, then a backslash
  and the decimal digits of \<open>c\<close>, then its output for \<open>post\<close>, between the quotes: the
  digits are padded with zeros to exactly three when the byte after \<open>c\<close> in the input is a
  decimal digit, and have no leading zero otherwise (also when \<open>c\<close> is the last byte). So
  does \<^verbatim>\<open>push_quoted_string\<close> for a value whose display string that is. The turn of the
  loop at \<open>c\<close>, followed by the byte \<open>d\<close>, appends exactly that escape.
\<close>

theorem quote_unnamed_control:
  assumes "unnamed_control c"
  shows "(\<exists>before after.
            quote_bytes pre = Inr (DQUOTE # before @ [DQUOTE])
          \<and> quote_bytes post = Inr (DQUOTE # after @ [DQUOTE])
          \<and> quote_bytes (pre @ c # post)
              = Inr (DQUOTE # before
                     @ BSLASH # (if post \<noteq> [] \<and> isdigit (hd post) then show_03d (of_char c)
                                 else dec_digits (of_char c))
                     @ after @ [DQUOTE])
          \<and> (tolstring h v = Inr (v', pre @ c # post) \<longrightarrow>
               push_quoted_string h v
                 = Inr (v', DQUOTE # before
                     @ BSLASH # (if post \<noteq> [] \<and> isdigit (hd post) then show_03d (of_char c)
                                 else dec_digits (of_char c))
                     @ after @ [DQUOTE])))
         \<and> (0 < len \<longrightarrow>
              quote_step (c # d # rest) len b =
                Inr (d # rest, len - 1,
                     b @ BSLASH # (if isdigit d then show_03d (of_char c) else dec_digits (of_char c))))
         \<and> length (show_03d (of_char c)) = 3
         \<and> list_all isdigit (show_03d (of_char c))
         \<and> dec_value (show_03d (of_char c)) = of_char c
         \<and> list_all isdigit (dec_digits (of_char c))
         \<and> dec_value (dec_digits (of_char c)) = of_char c
         \<and> hd (dec_digits (of_char c)) \<noteq> CHR ''0''"
proof -
  let ?out = "\<lambda>before after. DQUOTE # before
                     @ BSLASH # (if post \<noteq> [] \<and> isdigit (hd post) then show_03d (of_char c)
                                 else dec_digits (of_char c))
                     @ after @ [DQUOTE]"
  have lt: "(of_char c :: nat) < 1000"
    using nat_of_char_less_256[of c] by linarith
  have pos: "0 < (of_char c :: nat)" using assms(1) by (simp add: unnamed_control_def)
  from quote_bytes_at_control[OF assms, of pre post] obtain before after where
    q: "quote_bytes pre = Inr (DQUOTE # before @ [DQUOTE])"
       "quote_bytes post = Inr (DQUOTE # after @ [DQUOTE])"
       "quote_bytes (pre @ c # post) = Inr (?out before after)"
    by blast
  have p: "tolstring h v = Inr (v', pre @ c # post) \<longrightarrow>
      push_quoted_string h v = Inr (v', ?out before after)"
    using q(3) by (simp add: push_quoted_string_def)
  have s: "0 < len \<longrightarrow> quote_step (c # d # rest) len b =
           Inr (d # rest, len - 1,
                b @ BSLASH # (if isdigit d then show_03d (of_char c) else dec_digits (of_char c)))"
    using utf8len_ascii[OF unnamed_control_ascii[OF assms(1)]]
      quote_byte_unnamed[OF assms(1)]
    by (simp add: quote_step_def size_sub_def)
  from q p have "\<exists>before after.
            quote_bytes pre = Inr (DQUOTE # before @ [DQUOTE])
          \<and> quote_bytes post = Inr (DQUOTE # after @ [DQUOTE])
          \<and> quote_bytes (pre @ c # post) = Inr (?out before after)
          \<and> (tolstring h v = Inr (v', pre @ c # post) \<longrightarrow>
               push_quoted_string h v = Inr (v', ?out before after))"
    by blast
  with s show_03d_facts[OF lt] dec_digits_isdigit[of "of_char c"]
    dec_value_dec_digits[of "of_char c"] dec_digits_hd[OF pos]
  show ?thesis by blast
qed

theorem quote_unnamed_control_witness:
  "unnamed_control (CHR 0x01) \<and> unnamed_control (CHR 0x1F)
   \<and> quote_bytes [CHR ''a'', CHR 0x01, CHR ''5'']
        = Inr [DQUOTE, CHR ''a'', BSLASH, CHR ''0'', CHR ''0'', CHR ''1'', CHR ''5'', DQUOTE]
   \<and> quote_bytes [CHR ''a'', CHR 0x1F, CHR ''x'']
        = Inr [DQUOTE, CHR ''a'', BSLASH, CHR ''3'', CHR ''1'', CHR ''x'', DQUOTE]
   \<and> push_quoted_string example_host (LStr [CHR ''a'', CHR 0x01, CHR ''5''])
        = Inr (LStr [CHR ''a'', CHR 0x01, CHR ''5''],
               [DQUOTE, CHR ''a'', BSLASH, CHR ''0'', CHR ''0'', CHR ''1'', CHR ''5'', DQUOTE])
   \<and> quote_step [CHR 0x01, CHR ''5'', NUL] 2 [DQUOTE]
        = Inr ([CHR ''5'', NUL], 1, [DQUOTE, BSLASH, CHR ''0'', CHR ''0'', CHR ''1''])"
proof -
  have u: "unnamed_control (CHR 0x01)" "unnamed_control (CHR 0x1F)"
    by (simp_all add: unnamed_control_def iscntrl_def)
  have s1: "show_03d (of_char (CHR 0x01)) = ''001''" by code_simp
  have s2: "dec_digits (of_char (CHR 0x1F)) = ''31''" by code_simp
  have i: "isdigit (CHR ''5'')" "\<not> isdigit (CHR ''x'')" by (simp_all add: isdigit_def)
  have qa: "quote_bytes [CHR ''a''] = Inr [DQUOTE, CHR ''a'', DQUOTE]" by code_simp
  have q5: "quote_bytes [CHR ''5''] = Inr [DQUOTE, CHR ''5'', DQUOTE]" by code_simp
  have qx: "quote_bytes [CHR ''x''] = Inr [DQUOTE, CHR ''x'', DQUOTE]" by code_simp
  have t: "tolstring example_host (LStr [CHR ''a'', CHR 0x01, CHR ''5''])
      = Inr (LStr [CHR ''a'', CHR 0x01, CHR ''5''], [CHR ''a''] @ CHR 0x01 # [CHR ''5''])"
    by (simp add: tolstring_def example_host_def display_def)
  note t1 = quote_unnamed_control[OF u(1), where pre = "[CHR ''a'']" and post = "[CHR ''5'']"
      and h = example_host and v = "LStr [CHR ''a'', CHR 0x01, CHR ''5'']"
      and v' = "LStr [CHR ''a'', CHR 0x01, CHR ''5'']"
      and len = 2 and d = "CHR ''5''" and rest = "[NUL]" and b = "[DQUOTE]"]
  note t2 = quote_unnamed_control[OF u(2), where pre = "[CHR ''a'']" and post = "[CHR ''x'']"
      and h = example_host and v = "LStr [CHR ''a'', CHR 0x01, CHR ''5'']"
      and v' = "LStr [CHR ''a'', CHR 0x01, CHR ''5'']"
      and len = 2 and d = "CHR ''5''" and rest = "[NUL]" and b = "[DQUOTE]"]
  from t1 qa q5 t have a: "quote_bytes [CHR ''a'', CHR 0x01, CHR ''5'']
        = Inr [DQUOTE, CHR ''a'', BSLASH, CHR ''0'', CHR ''0'', CHR ''1'', CHR ''5'', DQUOTE]"
    and p: "push_quoted_string example_host (LStr [CHR ''a'', CHR 0x01, CHR ''5''])
        = Inr (LStr [CHR ''a'', CHR 0x01, CHR ''5''],
               [DQUOTE, CHR ''a'', BSLASH, CHR ''0'', CHR ''0'', CHR ''1'', CHR ''5'', DQUOTE])"
    using i s1 by auto
  from t2 qa qx have b: "quote_bytes [CHR ''a'', CHR 0x1F, CHR ''x'']
        = Inr [DQUOTE, CHR ''a'', BSLASH, CHR ''3'', CHR ''1'', CHR ''x'', DQUOTE]"
    using i s2 by auto
  from t1 have c: "quote_step [CHR 0x01, CHR ''5'', NUL] 2 [DQUOTE]
        = Inr ([CHR ''5'', NUL], 1, [DQUOTE, BSLASH, CHR ''0'', CHR ''0'', CHR ''1''])"
    using i s1 by simp
  from u a b p c show ?thesis by blast
qed


lemma escape_digits:
  assumes "ds \<noteq> []" "length ds \<le> 3" "list_all isdigit ds"
  shows "q_token (BSLASH # ds)"
proof -
  from assms(1) have "1 \<le> length ds" by (cases ds) simp_all
  with assms show ?thesis by (simp add: q_token_def is_escape_def)
qed

lemma q_token_if:
  "(A \<Longrightarrow> q_token x) \<Longrightarrow> (\<not> A \<Longrightarrow> q_token y) \<Longrightarrow> q_token (if A then x else y)"
  by simp

lemma q_token_named:
  "q_token [BSLASH, DQUOTE]" "q_token [BSLASH, BSLASH]" "q_token [BSLASH, CHR ''0'']"
  "q_token [BSLASH, CHR ''a'']" "q_token [BSLASH, CHR ''b'']" "q_token [BSLASH, CHR ''t'']"
  "q_token [BSLASH, CHR ''n'']" "q_token [BSLASH, CHR ''v'']" "q_token [BSLASH, CHR ''f'']"
  "q_token [BSLASH, CHR ''r'']"
  by (simp_all add: q_token_def is_escape_def isdigit_def)

lemma quote_byte_token:
  assumes "(of_char c :: nat) \<le> 0x7F" and "quote_byte (c # d # rest) = Some e"
  shows "q_token e"
proof -
  have lt: "(of_char c :: nat) < 1000" using assms(1) by linarith
  have dd: "q_token (BSLASH # dec_digits (of_char c))"
    using dec_digits_nonempty dec_digits_length[OF lt] dec_digits_isdigit by (rule escape_digits)
  have d3: "q_token (BSLASH # show_03d (of_char c))"
  proof (rule escape_digits)
    from show_03d_facts(1)[OF lt] show "show_03d (of_char c) \<noteq> []" by auto
    from show_03d_facts(1)[OF lt] show "length (show_03d (of_char c)) \<le> 3" by simp
    from show_03d_facts(2)[OF lt] show "list_all isdigit (show_03d (of_char c))" .
  qed
  have qb: "q_token [BSLASH, c]" if "c = DQUOTE \<or> c = BSLASH"
    using that q_token_named(1,2) by blast
  have plain: "q_token [c]" if "\<not> (c = DQUOTE \<or> c = BSLASH)" "\<not> iscntrl c"
    using that assms(1) by (simp add: q_token_def is_plain_def)
  from assms(2) have "e = (if c = DQUOTE \<or> c = BSLASH then [BSLASH, c]
           else if \<not> iscntrl c then [c]
           else if (of_char c :: nat) = 0 then [BSLASH, CHR ''0'']
           else if (of_char c :: nat) = 7 then [BSLASH, CHR ''a'']
           else if (of_char c :: nat) = 8 then [BSLASH, CHR ''b'']
           else if (of_char c :: nat) = 9 then [BSLASH, CHR ''t'']
           else if (of_char c :: nat) = 10 then [BSLASH, CHR ''n'']
           else if (of_char c :: nat) = 11 then [BSLASH, CHR ''v'']
           else if (of_char c :: nat) = 12 then [BSLASH, CHR ''f'']
           else if (of_char c :: nat) = 13 then [BSLASH, CHR ''r'']
           else if \<not> isdigit d then BSLASH # dec_digits (of_char c)
           else BSLASH # show_03d (of_char c))"
    unfolding quote_byte_eq by simp
  moreover have "q_token (if c = DQUOTE \<or> c = BSLASH then [BSLASH, c]
           else if \<not> iscntrl c then [c]
           else if (of_char c :: nat) = 0 then [BSLASH, CHR ''0'']
           else if (of_char c :: nat) = 7 then [BSLASH, CHR ''a'']
           else if (of_char c :: nat) = 8 then [BSLASH, CHR ''b'']
           else if (of_char c :: nat) = 9 then [BSLASH, CHR ''t'']
           else if (of_char c :: nat) = 10 then [BSLASH, CHR ''n'']
           else if (of_char c :: nat) = 11 then [BSLASH, CHR ''v'']
           else if (of_char c :: nat) = 12 then [BSLASH, CHR ''f'']
           else if (of_char c :: nat) = 13 then [BSLASH, CHR ''r'']
           else if \<not> isdigit d then BSLASH # dec_digits (of_char c)
           else BSLASH # show_03d (of_char c))"
    by (intro q_token_if qb plain q_token_named dd d3) 
  ultimately show ?thesis by simp
qed

lemma quote_step_token:
  assumes "k < length str"
    and "quote_step (drop k (str @ [NUL])) (length str - k) b = Inr (s', len', b')"
  shows "\<exists>tok. b' = b @ tok \<and> q_token tok"
proof -
  define s where "s = drop k (str @ [NUL])"
  define d where "d = decode_at s"
  have ne: "s \<noteq> []" and la: "last s = NUL" and two: "2 \<le> length s"
    using assms(1) by (simp_all add: s_def)
  have u: "utf8len s = Some d" unfolding d_def using ne la by (rule utf8len_decode)
  from two obtain c x rest where sh: "s = c # x # rest"
    by (cases s; cases "tl s") fastforce+
  from assms(2) have st: "quote_step s (length str - k) b = Inr (s', len', b')"
    by (simp only: s_def)
  consider "d < 0" | "1 < d" | "d = 1 \<or> d = 0" by linarith
  then show ?thesis
  proof cases
    case 1
    with st u have "b' = b @ replacement" by (simp add: quote_step_def)
    then show ?thesis by (auto simp: q_token_def)
  next
    case 2
    with st u have b': "b' = b @ take (nat d) s"
      by (simp add: quote_step_def split: if_splits)
    from 2 have pos: "0 < decode_at s" by (simp add: d_def)
    from decode_at_wf[OF pos] have w: "well_formed_seq (take (nat d) s)" by (simp add: d_def)
    have "nat d \<le> length s"
      using st u 2 by (simp add: quote_step_def split: if_splits)
    with 2 have "2 \<le> length (take (nat d) s)" by simp
    with w b' show ?thesis by (auto simp: q_token_def)
  next
    case 3
    with d_def sh have one: "well_formed_seq (take 1 s) \<or> d = 0"
      by (auto simp: decode_at_def split: if_splits)
    have "d \<noteq> 0" using decode_at_bound[OF two la] unfolding d_def by linarith
    with one sh have asc: "(of_char c :: nat) \<le> 0x7F" by (simp add: wf_simps byte_in_def)
    from 3 st u obtain e where e: "quote_byte s = Some e" and b': "b' = b @ e"
      by (auto simp: quote_step_def split: option.splits)
    from quote_byte_token[OF asc e[unfolded sh]] b' show ?thesis by blast
  qed
qed

lemma quote_loop_tokens:
  "k \<le> length str \<Longrightarrow>
     \<exists>toks. quote_loop (drop k (str @ [NUL])) (length str - k) b = Inr (b @ concat toks)
            \<and> list_all q_token toks"
proof (induction "length str - k" arbitrary: k b rule: less_induct)
  case less
  show ?case
  proof (cases "length str - k = 0")
    case True
    then have "quote_loop (drop k (str @ [NUL])) (length str - k) b = Inr (b @ concat [])"
      by (simp add: quote_loop.simps)
    then show ?thesis by (intro exI[of _ "[]"]) simp
  next
    case False
    then have klt: "k < length str" by simp
    from quote_step_nulterm[OF klt, of b] obtain j b' where
      j: "1 \<le> j" "k + j \<le> length str"
      and st: "quote_step (drop k (str @ [NUL])) (length str - k) b
       = Inr (drop (k + j) (str @ [NUL]), length str - (k + j), b')" by blast
    from quote_step_token[OF klt st] obtain tok where tok: "b' = b @ tok" "q_token tok" by blast
    from j have "length str - (k + j) < length str - k" using klt by linarith
    from less(1)[OF this j(2), of b'] obtain toks where
      r: "quote_loop (drop (k + j) (str @ [NUL])) (length str - (k + j)) b' = Inr (b' @ concat toks)"
      and a: "list_all q_token toks" by blast
    from st False r have
      "quote_loop (drop k (str @ [NUL])) (length str - k) b = Inr (b' @ concat toks)"
      by (subst quote_loop.simps) simp
    with tok have
      "quote_loop (drop k (str @ [NUL])) (length str - k) b = Inr (b @ concat (tok # toks))"
      by simp
    moreover from tok(2) a have "list_all q_token (tok # toks)" by simp
    ultimately show ?thesis by blast
  qed
qed

text \<open>
  Claim C10. The encoder returns, for every display string, a double quote, a
  concatenation of pieces each of which is a well-formed multi-byte sequence, the
  replacement character, a backslash escape or a printable single byte other than the
  quote and the backslash, and a double quote; so it does for every value whose display
  coercion gives a string.
\<close>

theorem quoted_form:
  "(\<exists>toks. quote_bytes str = Inr (DQUOTE # concat toks @ [DQUOTE]) \<and> list_all q_token toks)
   \<and> (tolstring h v = Inr (v', str) \<longrightarrow>
        (\<exists>toks. push_quoted_string h v = Inr (v', DQUOTE # concat toks @ [DQUOTE])
                 \<and> list_all q_token toks))"
proof -
  from quote_loop_tokens[of 0 str "[DQUOTE]"] obtain toks where
    "quote_loop (str @ [NUL]) (length str) [DQUOTE] = Inr ([DQUOTE] @ concat toks)"
    and a: "list_all q_token toks" by auto
  then have q: "quote_bytes str = Inr (DQUOTE # concat toks @ [DQUOTE])"
    by (simp add: quote_bytes_def)
  then have "tolstring h v = Inr (v', str) \<longrightarrow>
     push_quoted_string h v = Inr (v', DQUOTE # concat toks @ [DQUOTE])"
    by (simp add: push_quoted_string_def ebind_def)
  with q a show ?thesis by blast
qed


theorem quoted_form_witness:
  "tolstring example_host (LStr [CHR ''a'', DQUOTE]) = Inr (LStr [CHR ''a'', DQUOTE], [CHR ''a'', DQUOTE])
   \<and> (\<exists>toks. push_quoted_string example_host (LStr [CHR ''a'', DQUOTE])
                 = Inr (LStr [CHR ''a'', DQUOTE], DQUOTE # concat toks @ [DQUOTE])
              \<and> list_all q_token toks)"
proof -
  have t: "tolstring example_host (LStr [CHR ''a'', DQUOTE])
             = Inr (LStr [CHR ''a'', DQUOTE], [CHR ''a'', DQUOTE])"
    by (simp add: tolstring_def example_host_def display_def)
  from quoted_form[of "[CHR ''a'', DQUOTE]" example_host "LStr [CHR ''a'', DQUOTE]"
      "LStr [CHR ''a'', DQUOTE]"] t
  show ?thesis by blast
qed


text \<open>
  Claim C2, at the string of the two bytes NUL and \<open>1\<close>: the encoder writes the NUL as
  \<^verbatim>\<open>\0\<close> whatever follows it, the reader takes \<^verbatim>\<open>\01\<close> for the byte 01, and the two
  bytes do not come back.
\<close>

theorem quote_nul_before_digit:
  "quote_bytes [NUL, CHR ''1''] = Inr [DQUOTE, BSLASH, CHR ''0'', CHR ''1'', DQUOTE]
   \<and> lua_read_literal [DQUOTE, BSLASH, CHR ''0'', CHR ''1'', DQUOTE] = Some [CHR 0x01]
   \<and> format_lua example_host 0 [LStr ''%q'', LStr [NUL, CHR ''1'']]
       = Inr [LStr [DQUOTE, BSLASH, CHR ''0'', CHR ''1'', DQUOTE]]"
  by code_simp

section \<open>Properties of the parser and of the entry point\<close>

lemma peek_append_nth: "peek (t @ c # r) (length t) = Some c"
  by (simp add: peek_def)

lemma peek_past: "peek m i = None" if "length m \<le> i"
  using that by (simp add: peek_def)

lemma trailing_percent_reads_past:
  assumes "cur st = length t"
  shows "format_loop h (t @ [CHR ''%'', NUL]) narg st = Inl OutOfBounds"
proof -
  let ?m = "t @ [CHR ''%'', NUL]"
  have p0: "peek ?m (cur st) = Some (CHR ''%'')" using assms by (simp add: peek_def)
  have p1: "peek ?m (Suc (cur st)) = Some NUL" using assms by (simp add: peek_def nth_append)
  have p2: "peek ?m (Suc (Suc (cur st))) = None" using assms by (simp add: peek_def)
  have s2: "skip_flags ?m (Suc (Suc (cur st))) = None"
    by (subst skip_flags.simps) (simp add: p2)
  have "skip_flags ?m (Suc (cur st)) = None"
    by (subst skip_flags.simps) (simp add: p1 strchr_def s2)
  then have pp: "parse_placeholder h ?m narg stk (cur st) n = Inl OutOfBounds" for stk n
    by (simp add: parse_placeholder_def in_bounds_def)
  have "push_leading ?m st = Inl OutOfBounds \<or> (\<exists>stk. push_leading ?m st = Inr stk)"
    by (simp add: push_leading_def in_bounds_def split: option.splits)
  then have "conversion h ?m narg st = Inl OutOfBounds"
    by (auto simp: conversion_def pp)
  with p0 p1 show ?thesis
    by (subst format_loop.simps) simp
qed


lemma format_loop_plain:
  assumes "peek m (cur st) = Some c" "c \<noteq> NUL" "c \<noteq> CHR ''%''"
  shows "format_loop h m narg st = format_loop h m narg (st\<lparr>cur := Suc (cur st)\<rparr>)"
  using assms by (subst format_loop.simps) simp

lemma format_loop_literal:
  assumes "NUL \<notin> set lit" "CHR ''%'' \<notin> set lit" "cur st = length pre"
  shows "format_loop h (pre @ lit @ rest) narg st
       = format_loop h (pre @ lit @ rest) narg (st\<lparr>cur := length pre + length lit\<rparr>)"
  using assms
proof (induction lit arbitrary: pre st)
  case Nil
  from Nil.prems(3)[symmetric] show ?case by simp
next
  case (Cons c lit)
  have p: "peek (pre @ (c # lit) @ rest) (cur st) = Some c"
    using Cons.prems(3) by (simp add: peek_def)
  from Cons.prems have c: "c \<noteq> NUL" "c \<noteq> CHR ''%''" by auto
  have "format_loop h (pre @ (c # lit) @ rest) narg st
      = format_loop h ((pre @ [c]) @ lit @ rest) narg (st\<lparr>cur := Suc (cur st)\<rparr>)"
    using format_loop_plain[OF p c] by simp
  also have "\<dots> = format_loop h ((pre @ [c]) @ lit @ rest) narg
       (st\<lparr>cur := Suc (cur st)\<rparr>\<lparr>cur := length (pre @ [c]) + length lit\<rparr>)"
    by (rule Cons.IH) (use Cons.prems in auto)
  finally show ?case by simp
qed

text \<open>
  Claim C1, at the format strings \<^verbatim>\<open>%\<close> and \<^verbatim>\<open>abc%\<close>: the flags loop takes the
  terminating NUL for a flag and moves on, and the next read is outside the string. No
  unsupported-type error is raised.
\<close>

theorem lone_percent_reads_past_end:
  "format_lua h e (LStr ''%'' # args) = Inl OutOfBounds
   \<and> format_lua h e (LStr ''abc%'' # args) = Inl OutOfBounds"
proof -
  have r: "format_loop h (lit @ [CHR ''%'', NUL]) narg
      \<lparr>stack = stk, cur = 0, head = 0, nextarg = 1, errno = e\<rparr> = Inl OutOfBounds"
    if "NUL \<notin> set lit" "CHR ''%'' \<notin> set lit" for lit narg and stk :: "'a lua_value list"
  proof -
    have "format_loop h ([] @ lit @ [CHR ''%'', NUL]) narg
        \<lparr>stack = stk, cur = 0, head = 0, nextarg = 1, errno = e\<rparr>
      = format_loop h ([] @ lit @ [CHR ''%'', NUL]) narg
        (\<lparr>stack = stk, cur = 0, head = 0, nextarg = 1, errno = e\<rparr>\<lparr>cur := length ([] :: bytes) + length lit\<rparr>)"
      by (rule format_loop_literal) (use that in simp_all)
    also have "\<dots> = Inl OutOfBounds"
      using trailing_percent_reads_past[of
          "\<lparr>stack = stk, cur = 0, head = 0, nextarg = 1, errno = e\<rparr>\<lparr>cur := length ([] :: bytes) + length lit\<rparr>"
          lit h narg]
      by simp
    finally show ?thesis by simp
  qed
  have a: "format_lua h e (LStr ''%'' # args) = Inl OutOfBounds"
    using r[of "[]"] by (simp add: format_lua_def format_arguments_def index_def)
  have b: "format_lua h e (LStr ''abc%'' # args) = Inl OutOfBounds"
    using r[of "''abc''"] by (simp add: format_lua_def format_arguments_def index_def)
  from a b show ?thesis by simp
qed

lemma lua_insert_snoc:
  "k \<le> length xs \<Longrightarrow> lua_insert (xs @ [x]) (Suc k) = take k xs @ [x] @ drop k xs"
  by (simp add: lua_insert_def)

lemma lua_rawseti_at:
  "lua_rawseti (pre @ LTable t # ys @ [x]) (Suc (length pre)) i
     = Inr (pre @ LTable ((i, x) # filter (\<lambda>kv. fst kv \<noteq> i) t) # ys)"
proof -
  have "butlast (pre @ LTable t # ys @ [x]) = pre @ LTable t # ys"
    by (simp add: butlast_append)
  then show ?thesis
    by (simp add: lua_rawseti_def nth_append list_update_append)
qed

lemma fill_table_seq:
  assumes "\<forall>kv \<in> set t. length xs < fst kv"
  shows "fill_table (pre @ LTable t # xs) (Suc (length pre)) (length xs)
           = Inr (pre @ [LTable (zip [1..<Suc (length xs)] xs @ t)])"
  using assms
proof (induction xs arbitrary: t rule: rev_induct)
  case Nil
  show ?case by simp
next
  case (snoc x ys)
  let ?t' = "(Suc (length ys), x) # filter (\<lambda>kv. fst kv \<noteq> Suc (length ys)) t"
  from snoc.prems have f: "filter (\<lambda>kv. fst kv \<noteq> Suc (length ys)) t = t"
    by (auto simp: filter_id_conv)
  have "\<forall>kv \<in> set ?t'. length ys < fst kv" using snoc.prems by auto
  from snoc.IH[OF this]
  have "fill_table (pre @ LTable ?t' # ys) (Suc (length pre)) (length ys)
           = Inr (pre @ [LTable (zip [1..<Suc (length ys)] ys @ ?t')])" .
  moreover have "zip [1..<Suc (length (ys @ [x]))] (ys @ [x])
      = zip [1..<Suc (length ys)] ys @ [(Suc (length ys), x)]"
  proof -
    have "[1..<Suc (length (ys @ [x]))] = [1..<Suc (length ys)] @ [Suc (length ys)]"
      by simp
    moreover have "length [1..<Suc (length ys)] = length ys"
      by (simp only: length_upt diff_Suc_1)
    ultimately show ?thesis by (simp only: zip_append zip_Cons_Cons zip_Nil)
  qed
  moreover have "fill_table (pre @ LTable t # ys @ [x]) (Suc (length pre)) (length (ys @ [x]))
     = fill_table (pre @ LTable ?t' # ys) (Suc (length pre)) (length ys)"
    using lua_rawseti_at[of pre t ys x "Suc (length ys)"] by (simp add: ebind_def)
  ultimately show ?case
    by (simp only: f append_assoc append_Cons append_Nil)
qed

lemma package_unused:
  assumes "last_used < length args"
  shows
   "ebind (fill_table
             (lua_insert (lua_insert (args @ [res]) (last_used + 1) @ [LTable []]) (last_used + 2))
             (last_used + 2) (nat (int (length args) - int last_used)))
          (\<lambda>stk5. Inr (lua_return (stk5 @ [LInt (int (length args) - int last_used)]) 3))
    = Inr [res, LTable (zip [1..<Suc (length args - last_used)] (drop last_used args)),
           LInt (int (length args - last_used))]"
proof -
  define pre where "pre = take last_used args"
  define xs where "xs = drop last_used args"
  have l: "length pre = last_used" "length xs = length args - last_used"
    using assms by (simp_all add: pre_def xs_def)
  have a: "args = pre @ xs" by (simp add: pre_def xs_def)
  have s3: "lua_insert (args @ [res]) (last_used + 1) = pre @ [res] @ xs"
    using assms lua_insert_snoc[of last_used args res] by (simp add: pre_def xs_def)
  have "lua_insert ((pre @ [res] @ xs) @ [LTable []]) (last_used + 2)
      = take (Suc last_used) (pre @ [res] @ xs) @ [LTable []] @ drop (Suc last_used) (pre @ [res] @ xs)"
    using l lua_insert_snoc[of "Suc last_used" "pre @ [res] @ xs" "LTable []"] by simp
  also have "\<dots> = (pre @ [res]) @ LTable [] # xs"
    using l by simp
  finally have s4: "lua_insert ((pre @ [res] @ xs) @ [LTable []]) (last_used + 2)
      = (pre @ [res]) @ LTable [] # xs" .
  have n: "nat (int (length args) - int last_used) = length xs"
    using assms l by simp
  have f: "fill_table ((pre @ [res]) @ LTable [] # xs) (Suc (length (pre @ [res]))) (length xs)
      = Inr ((pre @ [res]) @ [LTable (zip [1..<Suc (length xs)] xs @ [])])"
    by (rule fill_table_seq) simp
  have tb: "last_used + 2 = Suc (length (pre @ [res]))" using l by simp
  have i: "int (length args) - int last_used = int (length xs)"
    using assms l by simp
  have "fill_table
             (lua_insert (lua_insert (args @ [res]) (last_used + 1) @ [LTable []]) (last_used + 2))
             (last_used + 2) (nat (int (length args) - int last_used))
        = Inr ((pre @ [res]) @ [LTable (zip [1..<Suc (length xs)] xs @ [])])"
    unfolding s3 s4 n unfolding tb by (rule f)
  moreover have "lua_return (((pre @ [res]) @ [LTable (zip [1..<Suc (length xs)] xs @ [])])
       @ [LInt (int (length xs))]) 3 = [res, LTable (zip [1..<Suc (length xs)] xs), LInt (int (length xs))]"
    by (simp add: lua_return_def)
  ultimately show ?thesis
    unfolding i by (simp add: ebind_def l xs_def[symmetric])
qed


lemma format_lua_unused:
  assumes fa: "format_arguments h e stk 1 = Inr (last_used, args @ pieces, e1)"
    and len: "length args = length stk"
    and cc: "lua_concat (args @ pieces) (length pieces) = Inr (args @ [res])"
    and lt: "last_used < length stk"
  shows "format_lua h e stk =
     Inr [res, LTable (zip [1..<Suc (length stk - last_used)] (drop last_used args)),
          LInt (int (length stk - last_used))]"
proof -
  have u: "int (length stk) - int last_used > 0" using lt by simp
  have "format_lua h e stk =
     ebind (fill_table
             (lua_insert (lua_insert (args @ [res]) (last_used + 1) @ [LTable []]) (last_used + 2))
             (last_used + 2) (nat (int (length args) - int last_used)))
          (\<lambda>stk5. Inr (lua_return (stk5 @ [LInt (int (length args) - int last_used)]) 3))"
    unfolding format_lua_def Let_def fa using u cc len by simp
  also have "\<dots> = Inr [res, LTable (zip [1..<Suc (length args - last_used)] (drop last_used args)),
           LInt (int (length args - last_used))]"
    by (rule package_unused) (use lt len in simp)
  finally show ?thesis using len by simp
qed

lemma format_lua_all_used:
  assumes fa: "format_arguments h e stk 1 = Inr (length stk, args @ pieces, e1)"
    and len: "length args = length stk"
    and cc: "lua_concat (args @ pieces) (length pieces) = Inr (args @ [res])"
  shows "format_lua h e stk = Inr [res]"
  unfolding format_lua_def Let_def fa using cc len by (simp add: lua_return_def)

text \<open>
  Claim C5. When the first value is not a string, \<^verbatim>\<open>format_arguments\<close> pushes nothing and
  gives 0, and the call returns the empty string, a sequence of the first value and all
  the arguments in their order, and their number.
\<close>

theorem non_string_template:
  assumes "text_of t = None"
  shows "format_arguments h e (t # args) 1 = Inr (0, t # args, e)
       \<and> format_lua h e (t # args) =
           Inr [LStr [], LTable (zip [1..<Suc (Suc (length args))] (t # args)),
                LInt (int (Suc (length args)))]"
proof -
  have fa: "format_arguments h e (t # args) 1 = Inr (0, (t # args) @ [], e)"
    using assms by (simp add: format_arguments_def index_def text_of_def split: lua_value.splits)
  have cc: "lua_concat ((t # args) @ []) (length ([] :: 'a lua_value list)) = Inr ((t # args) @ [LStr []])"
    by (simp add: lua_concat_def)
  from format_lua_unused[OF fa _ cc] have
    "format_lua h e (t # args) =
     Inr [LStr [], LTable (zip [1..<Suc (length (t # args) - 0)] (drop 0 (t # args))),
          LInt (int (length (t # args) - 0))]" by simp
  with fa show ?thesis by simp
qed

theorem non_string_template_witness:
  "text_of (LInt 7 :: unit lua_value) = None
   \<and> format_lua example_host 0 [LInt 7, LStr ''x'']
       = Inr [LStr [], LTable [(1, LInt 7), (2, LStr ''x'')], LInt 2]"
  using non_string_template[of "LInt 7 :: unit lua_value" example_host 0 "[LStr ''x'']"]
  by (simp add: text_of_def upt_rec)


lemma drop_more:
  assumes "drop n xs = drop n ys" "n \<le> k"
  shows "drop k xs = drop k ys"
proof -
  have "drop k xs = drop (k - n) (drop n xs)" using assms(2) by simp
  also have "\<dots> = drop (k - n) (drop n ys)" using assms(1) by simp
  also have "\<dots> = drop k ys" using assms(2) by simp
  finally show ?thesis .
qed

lemma push_leading_shape:
  "push_leading m st = Inr stk \<Longrightarrow> stk = stack st \<or> (\<exists>lit. stk = stack st @ [LStr lit])"
  unfolding push_leading_def by (auto split: if_splits elim!: ebind_InrE)

lemma emit_shape:
  assumes "emit h narg st stk c4 ty b4 n3 = Inr st'"
  shows "(\<exists>p. stack st' = stk @ [p] \<and> nextarg st' = n3)
       \<or> (\<exists>v' p. n3 < narg \<and> stack st' = stk[n3 := v'] @ [p] \<and> nextarg st' = Suc n3)"
  using assms unfolding emit_def
  by (auto split: if_splits prod.splits elim!: ebind_InrE)

lemma frame_grow:
  assumes "frame narg stk0 st" "stk = stack st \<or> (\<exists>lit. stk = stack st @ [LStr lit])"
  shows "narg \<le> length stk \<and> take narg stk = take narg (stack st)"
  using assms by (auto simp: frame_def)

lemma conversion_frame:
  assumes "conversion h m narg st = Inr st'" "frame narg stk0 st"
  shows "frame narg stk0 st'"
proof -
  from assms(1) obtain stk c4 ty b4 n3 where
    pl: "push_leading m st = Inr stk"
    and pp: "parse_placeholder h m narg stk (cur st) (nextarg st) = Inr (c4, ty, b4, n3)"
    and em: "emit h narg st stk c4 ty b4 n3 = Inr st'"
    unfolding conversion_def by (elim ebind_InrE) auto
  from frame_grow[OF assms(2) push_leading_shape[OF pl]]
  have g: "narg \<le> length stk" "take narg stk = take narg (stack st)" by simp_all
  from assms(2) have n0: "nextarg st \<le> narg"
    and d0: "drop (nextarg st) (take narg (stack st)) = drop (nextarg st) stk0"
    by (simp_all add: frame_def)
  from parse_placeholder_bounds[OF pp] n0 have n3: "nextarg st \<le> n3" "n3 \<le> narg" by simp_all
  from d0 g(2) have d: "drop (nextarg st) (take narg stk) = drop (nextarg st) stk0" by simp
  from emit_shape[OF em] show ?thesis
  proof (elim disjE exE conjE)
    fix p assume s: "stack st' = stk @ [p]" "nextarg st' = n3"
    from g(1) have "take narg (stk @ [p]) = take narg stk" by simp
    with drop_more[OF d n3(1)] s g(1) n3(2) show ?thesis by (simp add: frame_def)
  next
    fix v' p assume lt: "n3 < narg" and s: "stack st' = stk[n3 := v'] @ [p]" "nextarg st' = Suc n3"
    from g(1) have "take narg (stk[n3 := v'] @ [p]) = (take narg stk)[n3 := v']"
      by (simp add: take_update_swap)
    moreover have "drop (Suc n3) ((take narg stk)[n3 := v']) = drop (Suc n3) (take narg stk)"
      by simp
    moreover from n3(1) have "nextarg st \<le> Suc n3" by simp
    from drop_more[OF d this] have "drop (Suc n3) (take narg stk) = drop (Suc n3) stk0" .
    ultimately show ?thesis using s g(1) lt by (simp add: frame_def)
  qed
qed

lemma format_loop_frame:
  "format_loop h m narg st = Inr st' \<Longrightarrow> frame narg stk0 st \<Longrightarrow> frame narg stk0 st'"
proof (induction h m narg st rule: format_loop.induct)
  case (1 h m narg st)
  note simps = format_loop.simps[of h m narg st]
  show ?case
  proof (cases "peek m (cur st)")
    case None
    with "1.prems"(1) show ?thesis by (simp add: simps)
  next
    case (Some c)
    note c = this
    show ?thesis
    proof (cases "c = NUL")
      case True
      with c "1.prems" show ?thesis by (simp add: simps)
    next
      case nz: False
      show ?thesis
      proof (cases "c = CHR ''%''")
        case False
        with c nz "1.prems"(1)
        have r: "format_loop h m narg (st\<lparr>cur := cur st + 1\<rparr>) = Inr st'" by (simp add: simps)
        have "frame narg stk0 (st\<lparr>cur := cur st + 1\<rparr>)"
          using "1.prems"(2) by (simp add: frame_def)
        from "1.IH"(3)[OF c nz False r this] show ?thesis .
      next
        case pc: True
        show ?thesis
        proof (cases "peek m (cur st + 1)")
          case None
          with c nz pc "1.prems"(1) show ?thesis by (simp add: simps)
        next
          case (Some c1)
          note c1 = this
          show ?thesis
          proof (cases "c1 = CHR ''%''")
            case True
            show ?thesis
            proof (cases "span m (head st) (cur st + 1)")
              case None
              with c nz pc c1 True "1.prems"(1) show ?thesis by (simp add: simps)
            next
              case (Some lit)
              let ?st = "st\<lparr>stack := stack st @ [LStr lit], cur := cur st + 2, head := cur st + 2\<rparr>"
              from c nz pc c1 True Some "1.prems"(1)
              have r: "format_loop h m narg ?st = Inr st'" by (simp add: simps)
              have "frame narg stk0 ?st" using "1.prems"(2) by (simp add: frame_def)
              from "1.IH"(1)[OF c nz pc c1 True Some r this] show ?thesis .
            qed
          next
            case False
            show ?thesis
            proof (cases "conversion h m narg st")
              case (Inl e)
              with c nz pc c1 False "1.prems"(1) show ?thesis by (simp add: simps)
            next
              case (Inr st1)
              let ?st = "st1\<lparr>cur := cur st1 + 1\<rparr>"
              from c nz pc c1 False Inr "1.prems"(1)
              have r: "format_loop h m narg ?st = Inr st'" by (simp add: simps)
              from conversion_frame[OF Inr "1.prems"(2)]
              have "frame narg stk0 ?st" by (simp add: frame_def)
              from "1.IH"(2)[OF c nz pc c1 False Inr r this] show ?thesis .
            qed
          qed
        qed
      qed
    qed
  qed
qed

lemma format_arguments_frame:
  assumes "format_arguments h e stk 1 = Inr (last_used, stk1, e1)"
  shows "\<exists>args pieces. stk1 = args @ pieces \<and> length args = length stk
           \<and> last_used \<le> length stk \<and> drop last_used args = drop last_used stk"
proof (cases "\<exists>t. index stk 1 = Some (LStr t)")
  case False
  with assms have "last_used = 0" "stk1 = stk"
    by (auto simp: format_arguments_def split: option.splits lua_value.splits)
  then have "stk1 = stk @ [] \<and> length stk = length stk
           \<and> last_used \<le> length stk \<and> drop last_used stk = drop last_used stk" by simp
  then show ?thesis by blast
next
  case True
  then obtain t where t: "index stk 1 = Some (LStr t)" ..
  then have ne: "1 \<le> length stk" by (simp add: index_def split: if_splits)
  let ?st0 = "\<lparr>stack = stk, cur = 0, head = 0, nextarg = 1, errno = e\<rparr>"
  from assms t obtain st where
    fl: "format_loop h (t @ [NUL]) (length stk) ?st0 = Inr st"
    and fin: "(if cur st > head st then
              ebind (in_bounds (span (t @ [NUL]) (head st) (cur st))) (\<lambda>lit.
                Inr (nextarg st, stack st @ [LStr lit], errno st))
            else Inr (nextarg st, stack st, errno st)) = Inr (last_used, stk1, e1)"
    unfolding format_arguments_def by (auto elim!: ebind_InrE)
  have "frame (length stk) stk ?st0" using ne by (simp add: frame_def)
  from format_loop_frame[OF fl this] have fr: "frame (length stk) stk st" .
  from fin have "last_used = nextarg st \<and> (stk1 = stack st \<or> (\<exists>lit. stk1 = stack st @ [LStr lit]))"
    by (auto split: if_splits elim!: ebind_InrE)
  then have l: "last_used = nextarg st"
    and s: "stk1 = stack st \<or> (\<exists>lit. stk1 = stack st @ [LStr lit])" by simp_all
  from frame_grow[OF fr s] have g: "length stk \<le> length stk1"
    "take (length stk) stk1 = take (length stk) (stack st)" by simp_all
  have "stk1 = take (length stk) stk1 @ drop (length stk) stk1" by simp
  moreover have "length (take (length stk) stk1) = length stk" using g(1) by simp
  moreover have "last_used \<le> length stk" using fr l by (simp add: frame_def)
  moreover have "drop last_used (take (length stk) stk1) = drop last_used stk"
    using fr l g(2) by (simp add: frame_def)
  ultimately show ?thesis by blast
qed

lemma lua_concat_top:
  assumes "lua_concat (args @ pieces) (length pieces) = Inr stk2"
  shows "\<exists>res. stk2 = args @ [res]"
proof -
  consider "length pieces = 0" | "length pieces = 1" | "2 \<le> length pieces" by linarith
  then show ?thesis
  proof cases
    case 1 with assms show ?thesis by (auto simp: lua_concat_def)
  next
    case 2
    then obtain p where "pieces = [p]" by (cases pieces) auto
    with assms show ?thesis by (auto simp: lua_concat_def)
  next
    case 3
    with assms show ?thesis by (auto simp: lua_concat_def Let_def split: if_splits)
  qed
qed


lemma leftover_general:
  assumes "format_lua h e stk = Inr r"
  shows "\<exists>last_used stk1 e1 res.
           format_arguments h e stk 1 = Inr (last_used, stk1, e1)
         \<and> last_used \<le> length stk
         \<and> r = (if 0 < length stk - last_used
                then [res, LTable (zip [1..<Suc (length stk - last_used)] (drop last_used stk)),
                      LInt (int (length stk - last_used))]
                else [res])"
proof -
  from assms obtain last_used stk1 e1 where
    fa: "format_arguments h e stk 1 = Inr (last_used, stk1, e1)"
    unfolding format_lua_def Let_def by (elim ebind_InrE) auto
  from format_arguments_frame[OF fa] obtain args pieces where
    s1: "stk1 = args @ pieces" and la: "length args = length stk"
    and le: "last_used \<le> length stk" and dr: "drop last_used args = drop last_used stk"
    by blast
  have n: "length stk1 - length stk = length pieces" using s1 la by simp
  from assms fa obtain stk2 where cc: "lua_concat stk1 (length stk1 - length stk) = Inr stk2"
    unfolding format_lua_def Let_def by (auto elim!: ebind_InrE)
  then have cc': "lua_concat (args @ pieces) (length pieces) = Inr stk2"
    unfolding n unfolding s1 .
  from lua_concat_top[OF cc'] obtain res where res: "stk2 = args @ [res]" ..
  show ?thesis
  proof (cases "last_used < length stk")
    case True
    from format_lua_unused[OF fa[unfolded s1] la cc'[unfolded res] True] assms dr
    have "r = [res, LTable (zip [1..<Suc (length stk - last_used)] (drop last_used stk)),
          LInt (int (length stk - last_used))]" by simp
    with fa le True show ?thesis by auto
  next
    case False
    with le have eq: "last_used = length stk" by simp
    from format_lua_all_used[OF fa[unfolded s1 eq] la cc'[unfolded res]] assms
    have "r = [res]" by simp
    with fa le eq show ?thesis by auto
  qed
qed

lemmas parser_eval = format_lua_def format_arguments_def format_loop.simps conversion_def
  push_leading_def parse_placeholder_def emit_def skip_flags.simps width_field.simps
  push_format_string_def print_arg_def uint2str_def copy2placeholder_def span_def
  peek_def index_def strchr_def flag_chars_def width_chars_def length_chars_def type_chars_def
  in_bounds_def checked_def cstr_def luaL_checkinteger_def Let_def lua_concat_def
  lua_insert_def lua_rawseti_def lua_return_def text_of_def

lemma fill_table_numeral:
  "fill_table stk tblidx (numeral k) =
     ebind (lua_rawseti stk tblidx (numeral k)) (\<lambda>stk'. fill_table stk' tblidx (pred_numeral k))"
  by (simp add: numeral_eq_Suc)

lemma percent_d_example:
  assumes "asprintf h ''%d'' (AInt 1) e = (Some ''1'', e')"
  shows "format_lua h e [LStr ''%d'', LInt 1, LInt 2, LInt 3]
           = Inr [LStr ''1'', LTable [(1, LInt 2), (2, LInt 3)], LInt 2]"
  using assms by (simp add: parser_eval fill_table_numeral)


text \<open>
  Claim C7. When the call returns, \<^verbatim>\<open>format_arguments\<close> has given the index \<open>last_used\<close>
  of the last argument used, at most the number \<open>N\<close> of values of the call; when
  \<open>N - last_used\<close> is positive the call returns the result string, the values after
  \<open>last_used\<close> in their order as a sequence with keys 1, 2, ..., and their number, and
  otherwise the result string alone. On a platform whose \<^verbatim>\<open>%d\<close> of 1 is "1",
  \<^verbatim>\<open>format("%d", 1, 2, 3)\<close> returns "1", the sequence of 2 and 3, and 2.
\<close>

theorem leftover_arguments:
  "(format_lua h e stk = Inr r \<longrightarrow>
      (\<exists>last_used stk1 e1 res.
           format_arguments h e stk 1 = Inr (last_used, stk1, e1)
         \<and> last_used \<le> length stk
         \<and> r = (if 0 < length stk - last_used
                then [res, LTable (zip [1..<Suc (length stk - last_used)] (drop last_used stk)),
                      LInt (int (length stk - last_used))]
                else [res])))
   \<and> (asprintf h ''%d'' (AInt 1) e = (Some ''1'', e') \<longrightarrow>
        format_lua h e [LStr ''%d'', LInt 1, LInt 2, LInt 3]
           = Inr [LStr ''1'', LTable [(1, LInt 2), (2, LInt 3)], LInt 2])"
  using leftover_general[of h e stk r] percent_d_example[of h e e'] by blast

theorem leftover_arguments_witness:
  "format_lua example_host 0 [LStr ''%d'', LInt 1, LInt 2, LInt 3]
     = Inr [LStr ''1'', LTable [(1, LInt 2), (2, LInt 3)], LInt 2]
   \<and> asprintf example_host ''%d'' (AInt 1) 0 = (Some ''1'', 0)
   \<and> (\<exists>last_used stk1 e1 res.
           format_arguments example_host 0 [LStr ''%d'', LInt 1, LInt 2, LInt 3] 1
             = Inr (last_used, stk1, e1)
         \<and> last_used \<le> length [LStr ''%d'', LInt 1 :: unit lua_value, LInt 2, LInt 3]
         \<and> ([LStr ''1'', LTable [(1, LInt 2), (2, LInt 3)], LInt 2] :: unit lua_value list)
             = (if 0 < length [LStr ''%d'', LInt 1 :: unit lua_value, LInt 2, LInt 3] - last_used
                then [res, LTable (zip [1..<Suc (length [LStr ''%d'', LInt 1 :: unit lua_value, LInt 2, LInt 3] - last_used)]
                             (drop last_used [LStr ''%d'', LInt 1, LInt 2, LInt 3])),
                      LInt (int (length [LStr ''%d'', LInt 1 :: unit lua_value, LInt 2, LInt 3] - last_used))]
                else [res]))"
proof -
  have a: "asprintf example_host ''%d'' (AInt 1) 0 = (Some ''1'', 0)"
    by code_simp
  note t = leftover_arguments[of example_host 0 "[LStr ''%d'', LInt 1, LInt 2, LInt 3]"
      "[LStr ''1'', LTable [(1, LInt 2), (2, LInt 3)], LInt 2]" 0]
  from t[THEN conjunct2] a
  have b: "format_lua example_host 0 [LStr ''%d'', LInt 1, LInt 2, LInt 3]
     = Inr [LStr ''1'', LTable [(1, LInt 2), (2, LInt 3)], LInt 2]" by (rule mp)
  from t[THEN conjunct1] b
  have c: "\<exists>last_used stk1 e1 res.
           format_arguments example_host 0 [LStr ''%d'', LInt 1, LInt 2, LInt 3] 1
             = Inr (last_used, stk1, e1)
         \<and> last_used \<le> length [LStr ''%d'', LInt 1 :: unit lua_value, LInt 2, LInt 3]
         \<and> ([LStr ''1'', LTable [(1, LInt 2), (2, LInt 3)], LInt 2] :: unit lua_value list)
             = (if 0 < length [LStr ''%d'', LInt 1 :: unit lua_value, LInt 2, LInt 3] - last_used
                then [res, LTable (zip [1..<Suc (length [LStr ''%d'', LInt 1 :: unit lua_value, LInt 2, LInt 3] - last_used)]
                             (drop last_used [LStr ''%d'', LInt 1, LInt 2, LInt 3])),
                      LInt (int (length [LStr ''%d'', LInt 1 :: unit lua_value, LInt 2, LInt 3] - last_used))]
                else [res])" by (rule mp)
  from b a c show ?thesis by (intro conjI)
qed

lemma dec_digits_length_pow: "n < 10 ^ k \<Longrightarrow> 0 < k \<Longrightarrow> length (dec_digits n) \<le> k"
proof (induction k arbitrary: n)
  case 0
  then show ?case by simp
next
  case (Suc k)
  show ?case
  proof (cases "n < 10")
    case True
    then show ?thesis by (subst dec_digits.simps) simp
  next
    case False
    with Suc.prems have k: "0 < k" by (cases k) auto
    from Suc.prems have "n div 10 < 10 ^ k" by (simp add: less_mult_imp_div_less mult.commute)
    from Suc.IH[OF this k] False show ?thesis by (subst dec_digits.simps) simp
  qed
qed

lemma show_int_length:
  assumes "- (2 ^ 31) \<le> i" "i < 2 ^ 31"
  shows "length (show_int i) \<le> 11"
proof -
  have "nat \<bar>i\<bar> < 10 ^ 10" using assms by simp
  from dec_digits_length_pow[OF this] have "length (dec_digits (nat \<bar>i\<bar>)) \<le> 10" by simp
  then show ?thesis by (cases "i < 0") (simp_all add: show_int_def abs_if)
qed

lemma width_star_absent:
  assumes "peek m c = Some (CHR ''*'')" "span m hp c = Some lead"
    "length lead < 255 - length buf" "narg < n + 1"
  shows "width_field h m narg stk fmt c hp buf n = Inl (NotEnoughArgs (cstr (drop fmt m)))"
  using assms
  by (subst width_field.simps)
     (simp add: strchr_def width_chars_def in_bounds_def copy2placeholder_def uint2str_def)

lemma width_star_number:
  assumes "peek m c = Some (CHR ''*'')" "span m hp c = Some lead"
    "length lead < 255 - length buf" "n + 1 \<le> narg"
    "index stk (n + 1) = Some (LInt i) \<and> - (2 ^ 31) \<le> i \<and> i < 2 ^ 31
     \<or> (\<exists>f. index stk (n + 1) = Some (LFlt f) \<and> number_to_int h f = Some i)"
  shows "width_field h m narg stk fmt c hp buf n
       = ebind (copy2placeholder (buf @ lead) (show_int i))
           (\<lambda>buf2. width_field h m narg stk fmt (c + 1) (c + 1) buf2 (n + 1))"
  using assms
  by (subst width_field.simps)
     (auto simp: strchr_def width_chars_def in_bounds_def copy2placeholder_def uint2str_def)

lemma width_star_not_number:
  assumes "peek m c = Some (CHR ''*'')" "span m hp c = Some lead"
    "length lead < 255 - length buf" "n + 1 \<le> narg"
    "index stk (n + 1) = Some v" "v \<notin> range LInt" "v \<notin> range LFlt"
  shows "width_field h m narg stk fmt c hp buf n = Inl (ArgError (n + 1))"
  using assms
  by (subst width_field.simps)
     (auto simp: strchr_def width_chars_def in_bounds_def copy2placeholder_def uint2str_def
        split: lua_value.splits)

lemmas loop_eval = format_loop.simps conversion_def
  push_leading_def parse_placeholder_def emit_def skip_flags.simps width_field.simps
  uint2str_def copy2placeholder_def span_def
  peek_def index_def strchr_def flag_chars_def width_chars_def length_chars_def type_chars_def
  in_bounds_def Let_def nth_append cstr_def

lemma star_width_general:
  assumes "- (2 ^ 31) \<le> w" "w < 2 ^ 31"
  shows "format_arguments h e [LStr ''%*d'', LInt w, v] 1 =
     (case push_format_string h (''%'' @ show_int w @ ''d'') (CHR ''d'') 3 v e of
        Inl er \<Rightarrow> Inl er
      | Inr (v', piece, e') \<Rightarrow> Inr (3, [LStr ''%*d'', LInt w, v', piece], e'))"
proof -
  have l: "length (show_int w) < 253"
    using show_int_length[OF assms] by simp
  show ?thesis
  proof (cases "push_format_string h (''%'' @ show_int w @ ''d'') (CHR ''d'') 3 v e")
    case (Inl er)
    with assms l show ?thesis
      by (auto simp: format_arguments_def loop_eval numeral_3_eq_3)
  next
    case (Inr x)
    then obtain v' piece e' where
      "push_format_string h (''%'' @ show_int w @ ''d'') (CHR ''d'') 3 v e = Inr (v', piece, e')"
      by (cases x) auto
    with assms l show ?thesis
      by (auto simp: format_arguments_def loop_eval numeral_3_eq_3)
  qed
qed

lemma star_precision_general:
  assumes "- (2 ^ 31) \<le> w" "w < 2 ^ 31"
  shows "format_arguments h e [LStr ''%.*f'', LInt w, v] 1 =
     (case push_format_string h (''%.'' @ show_int w @ ''f'') (CHR ''f'') 3 v e of
        Inl er \<Rightarrow> Inl er
      | Inr (v', piece, e') \<Rightarrow> Inr (3, [LStr ''%.*f'', LInt w, v', piece], e'))"
proof -
  have l: "length (show_int w) < 252"
    using show_int_length[OF assms] by simp
  show ?thesis
  proof (cases "push_format_string h (''%.'' @ show_int w @ ''f'') (CHR ''f'') 3 v e")
    case (Inl er)
    with assms l show ?thesis
      by (auto simp: format_arguments_def loop_eval numeral_3_eq_3)
  next
    case (Inr x)
    then obtain v' piece e' where
      "push_format_string h (''%.'' @ show_int w @ ''f'') (CHR ''f'') 3 v e = Inr (v', piece, e')"
      by (cases x) auto
    with assms l show ?thesis
      by (auto simp: format_arguments_def loop_eval numeral_3_eq_3)
  qed
qed

lemma star_examples:
  "format_lua h e [LStr ''%*d''] = Inl (NotEnoughArgs ''%*d'')"
  "format_lua h e [LStr ''%.*f''] = Inl (NotEnoughArgs ''%.*f'')"
  "format_lua h e [LStr ''%*d'', LStr ''5'', LInt 3] = Inl (ArgError 2)"
  by (simp_all add: format_lua_def format_arguments_def loop_eval)

lemma star_five_three:
  assumes "asprintf h ''%5d'' (AInt 3) e = (Some ''    3'', e')"
  shows "format_arguments h e [LStr ''%*d'', LInt 5, LInt 3] 1
           = Inr (3, [LStr ''%*d'', LInt 5, LInt 3, LStr ''    3''], e')"
    and "format_lua h e [LStr ''%*d'', LInt 5, LInt 3] = Inr [LStr ''    3'']"
proof -
  have s: "show_int 5 = ''5''" by code_simp
  have p: "push_format_string h (''%'' @ show_int 5 @ ''d'') (CHR ''d'') 3 (LInt 3) e
      = Inr (LInt 3, LStr ''    3'', e')"
    using assms
    by (simp add: s push_format_string_def print_arg_def checked_def luaL_checkinteger_def cstr_def)
  show a: "format_arguments h e [LStr ''%*d'', LInt 5, LInt 3] 1
           = Inr (3, [LStr ''%*d'', LInt 5, LInt 3, LStr ''    3''], e')"
    using star_width_general[of 5 h e "LInt 3"] p by simp
  show "format_lua h e [LStr ''%*d'', LInt 5, LInt 3] = Inr [LStr ''    3'']"
    unfolding format_lua_def Let_def a by (simp add: lua_concat_def lua_return_def)
qed




subsection \<open>The \<^verbatim>\<open>%m\<close> specifier\<close>

lemma skip_flags_run:
  assumes "\<forall>c \<in> set fl. strchr flag_chars c"
  shows "skip_flags (xs @ fl @ rest) (length xs) = skip_flags (xs @ fl @ rest) (length xs + length fl)"
  using assms
proof (induction fl arbitrary: xs)
  case Nil
  show ?case by simp
next
  case (Cons c fl)
  have p: "peek (xs @ (c # fl) @ rest) (length xs) = Some c" by (simp add: peek_def)
  have "skip_flags (xs @ (c # fl) @ rest) (length xs)
      = skip_flags ((xs @ [c]) @ fl @ rest) (length (xs @ [c]))"
    using Cons.prems p by (subst skip_flags.simps) simp
  also have "\<dots> = skip_flags ((xs @ [c]) @ fl @ rest) (length (xs @ [c]) + length fl)"
    by (rule Cons.IH) (use Cons.prems in simp)
  finally show ?case by simp
qed

lemma type_char_classes:
  assumes "ty \<in> set type_chars"
  shows "\<not> strchr flag_chars ty" "\<not> strchr width_chars ty" "ty \<noteq> CHR ''.''"
    "\<not> strchr length_chars ty" "strchr type_chars ty"
  using assms
  by (auto simp: strchr_def type_chars_def flag_chars_def width_chars_def length_chars_def)

lemma length_char_classes:
  assumes "l \<in> set length_chars"
  shows "\<not> strchr flag_chars l" "\<not> strchr width_chars l" "l \<noteq> CHR ''.''"
    "strchr length_chars l"
  using assms
  by (auto simp: strchr_def flag_chars_def width_chars_def length_chars_def)

lemma dot_classes: "\<not> strchr flag_chars (CHR ''.'')" "\<not> strchr width_chars (CHR ''.'')"
  by (simp_all add: strchr_def flag_chars_def width_chars_def)

lemma span_middle: "span (xs @ ys @ zs) (length xs) (length xs + length ys) = Some ys"
  by (simp add: span_def)

lemma stars_simps [simp]:
  "stars [] = 0" "stars (c # cs) = (if c = CHR ''*'' then Suc (stars cs) else stars cs)"
  "stars (xs @ ys) = stars xs + stars ys"
  by (simp_all add: stars_def)

lemma subst_stars_append:
  "subst_stars (xs @ ys) ws
     = subst_stars xs (take (stars xs) ws) @ subst_stars ys (drop (stars xs) ws)"
proof (induction xs arbitrary: ws)
  case Nil
  show ?case by simp
next
  case (Cons c xs)
  show ?case by (cases ws) (simp_all add: Cons.IH)
qed

lemma subst_stars_none: "stars xs = 0 \<Longrightarrow> subst_stars xs ws = xs"
  by (induction xs) (simp_all split: if_splits)

lemma take_drop_Cons:
  assumes "take (Suc k) (drop i m) = c # w"
  shows "i < length m" "m ! i = c" "take k (drop (Suc i) m) = w"
proof -
  show a: "i < length m" using assms by (cases "i < length m") simp_all
  then have "drop i m = m ! i # drop (Suc i) m" by (simp add: Cons_nth_drop_Suc)
  with assms show "m ! i = c" "take k (drop (Suc i) m) = w" by simp_all
qed

lemma pending_step:
  assumes "hp \<le> i" "i < length m"
  shows "take (Suc i - hp) (drop hp m) = take (i - hp) (drop hp m) @ [m ! i]"
proof -
  from assms have "Suc i - hp = Suc (i - hp)" by simp
  moreover from assms have "i - hp < length (drop hp m)" by simp
  ultimately show ?thesis using assms by (simp add: take_Suc_conv_app_nth)
qed

lemma width_field_run:
  assumes "take (length w) (drop c m) = w"
    and "\<forall>x\<in>set w. x \<in> set width_chars"
    and "hp \<le> c"
    and "length ws = stars w"
    and "\<forall>i<length ws. uint2str h (cstr (drop fmt m)) narg stk (n + 1 + i) = Inr (ws ! i)"
    and "length (buf @ take (c - hp) (drop hp m) @ subst_stars w ws) < 255"
  shows "\<exists>hp' buf'. width_field h m narg stk fmt c hp buf n
                     = width_field h m narg stk fmt (c + length w) hp' buf' (n + length ws)
           \<and> hp' \<le> c + length w
           \<and> buf' @ take (c + length w - hp') (drop hp' m)
               = buf @ take (c - hp) (drop hp m) @ subst_stars w ws"
  using assms
proof (induction w arbitrary: c hp buf n ws)
  case Nil
  then show ?case by auto
next
  case (Cons x w)
  from Cons.prems(1) have "take (Suc (length w)) (drop c m) = x # w" by simp
  from take_drop_Cons[OF this] have lt: "c < length m" and x: "m ! c = x"
    and tk: "take (length w) (drop (Suc c) m) = w" .
  have pk: "peek m c = Some x" using lt x by (simp add: peek_def)
  from Cons.prems(2) have wc: "strchr width_chars x" and wr: "\<forall>x\<in>set w. x \<in> set width_chars"
    by (simp_all add: strchr_def)
  show ?case
  proof (cases "x = CHR ''*''")
    case False
    have st: "width_field h m narg stk fmt c hp buf n
        = width_field h m narg stk fmt (Suc c) hp buf n"
      using pk wc False by (subst width_field.simps) simp
    have l: "length ws = stars w" using Cons.prems(4) False by simp
    have pe: "take (Suc c - hp) (drop hp m) = take (c - hp) (drop hp m) @ [x]"
      using pending_step[OF Cons.prems(3) lt] x by simp
    have f: "length (buf @ take (Suc c - hp) (drop hp m) @ subst_stars w ws) < 255"
      using Cons.prems(6) False unfolding pe by simp
    from Cons.IH[OF tk wr _ l Cons.prems(5) f] Cons.prems(3)
    obtain hp' buf' where
      "width_field h m narg stk fmt (Suc c) hp buf n
         = width_field h m narg stk fmt (Suc c + length w) hp' buf' (n + length ws)"
      "hp' \<le> Suc c + length w"
      "buf' @ take (Suc c + length w - hp') (drop hp' m)
         = buf @ take (Suc c - hp) (drop hp m) @ subst_stars w ws"
      by auto
    with st pe False show ?thesis by (intro exI[of _ hp'] exI[of _ buf']) simp
  next
    case True
    with Cons.prems(4) obtain w0 ws' where ws: "ws = w0 # ws'" and l: "length ws' = stars w"
      by (cases ws) simp_all
    define lead where "lead = take (c - hp) (drop hp m)"
    have sp: "span m hp c = Some lead"
      using Cons.prems(3) lt by (simp add: span_def lead_def)
    from Cons.prems(6) have fits: "length buf + length lead + length w0 < 255"
      unfolding ws lead_def using True by simp
    from Cons.prems(5) have u0: "uint2str h (cstr (drop fmt m)) narg stk (n + 1) = Inr w0"
      unfolding ws by auto
    from fits have f1: "\<not> 255 - length buf \<le> length lead"
      and f2: "\<not> 255 - (length buf + length lead) \<le> length w0" by arith+
    have st: "width_field h m narg stk fmt c hp buf n
        = width_field h m narg stk fmt (Suc c) (Suc c) (buf @ lead @ w0) (Suc n)"
      using pk wc True sp u0 f1 f2
      by (subst width_field.simps) (simp add: in_bounds_def copy2placeholder_def)
    have a: "\<forall>i<length ws'. uint2str h (cstr (drop fmt m)) narg stk (Suc n + 1 + i) = Inr (ws' ! i)"
    proof (intro allI impI)
      fix i assume "i < length ws'"
      then have "Suc i < length ws" by (simp add: ws)
      with Cons.prems(5) have "uint2str h (cstr (drop fmt m)) narg stk (n + 1 + Suc i) = Inr (ws ! Suc i)"
        by blast
      then show "uint2str h (cstr (drop fmt m)) narg stk (Suc n + 1 + i) = Inr (ws' ! i)"
        by (simp add: ws)
    qed
    have f: "length ((buf @ lead @ w0) @ take (Suc c - Suc c) (drop (Suc c) m) @ subst_stars w ws') < 255"
      using Cons.prems(6) True unfolding ws lead_def by simp
    from Cons.IH[OF tk wr le_refl l a f]
    obtain hp' buf' where
      "width_field h m narg stk fmt (Suc c) (Suc c) (buf @ lead @ w0) (Suc n)
         = width_field h m narg stk fmt (Suc c + length w) hp' buf' (Suc n + length ws')"
      "hp' \<le> Suc c + length w"
      "buf' @ take (Suc c + length w - hp') (drop hp' m)
         = (buf @ lead @ w0) @ take (Suc c - Suc c) (drop (Suc c) m) @ subst_stars w ws'"
      by auto
    with st True show ?thesis
      by (intro exI[of _ hp'] exI[of _ buf']) (simp add: ws lead_def)
  qed
qed


lemma drop_at: "m = xs @ ys \<Longrightarrow> length xs = q \<Longrightarrow> drop q m = ys"
  by simp

lemma width_field_stop:
  assumes "peek m c = Some x" "\<not> strchr width_chars x"
  shows "width_field h m narg stk fmt c hp buf n = Inr (c, hp, buf, n)"
  using assms by (subst width_field.simps) simp

lemma width_field_star_fails:
  assumes "peek m c = Some (CHR ''*'')" "hp \<le> c"
    and "length (buf @ take (c - hp) (drop hp m)) < 255"
    and "uint2str h (cstr (drop fmt m)) narg stk (n + 1) = Inl e"
  shows "width_field h m narg stk fmt c hp buf n = Inl e"
proof -
  from assms(1) have lt: "c < length m" by (rule peek_Some_lt)
  define lead where "lead = take (c - hp) (drop hp m)"
  have sp: "span m hp c = Some lead"
    using assms(2) lt by (simp add: span_def lead_def)
  from assms(3) have f: "\<not> 255 - length buf \<le> length lead"
    unfolding lead_def[symmetric] by simp
  show ?thesis
    using assms(1,4) sp f
    by (subst width_field.simps)
       (simp add: in_bounds_def copy2placeholder_def strchr_def width_chars_def)
qed

lemma flag_not_star: "x \<in> set flag_chars \<Longrightarrow> x \<noteq> CHR ''*''"
  by (auto simp: flag_chars_def)

lemma width_not_nul: "x \<in> set width_chars \<Longrightarrow> x \<noteq> NUL"
  by (auto simp: width_chars_def)

lemma flags_width_run:
  assumes fl: "\<forall>x\<in>set fl. x \<in> set flag_chars"
    and wd: "\<forall>x\<in>set wd. x \<in> set width_chars"
    and c: "\<not> strchr flag_chars c"
    and m: "m = pre @ CHR ''%'' # fl @ wd @ c # r"
    and len: "length ws = stars wd"
    and args: "\<forall>i<length ws. uint2str h (cstr (drop (length pre) m)) narg stk (n + 1 + i) = Inr (ws ! i)"
    and fits: "length (CHR ''%'' # fl @ subst_stars wd ws) < 255"
  shows "\<exists>q hp' buf'. skip_flags m (length pre + 1) = Some q
     \<and> width_field h m narg stk (length pre) q (length pre) [] n
         = width_field h m narg stk (length pre) (length pre + 1 + length fl + length wd)
             hp' buf' (n + length ws)
     \<and> hp' \<le> length pre + 1 + length fl + length wd
     \<and> buf' @ take (length pre + 1 + length fl + length wd - hp') (drop hp' m)
         = CHR ''%'' # fl @ subst_stars wd ws"
proof -
  define z where "z = takeWhile (\<lambda>x. x \<in> set flag_chars) wd"
  define w where "w = dropWhile (\<lambda>x. x \<in> set flag_chars) wd"
  define q where "q = length pre + 1 + length fl + length z"
  have wdz: "wd = z @ w" by (simp add: z_def w_def)
  have zf: "\<forall>x\<in>set z. x \<in> set flag_chars" unfolding z_def by (auto dest: set_takeWhileD)
  then have z0: "stars z = 0"
    by (auto simp: stars_def filter_empty_conv dest: flag_not_star)
  have ww: "\<forall>x\<in>set w. x \<in> set width_chars" using wd unfolding wdz by simp
  \<comment> \<open>the flags loop runs over the flags and the zeros that begin the width\<close>
  have v1: "m = (pre @ [CHR ''%'']) @ (fl @ z) @ (w @ c # r)" by (simp add: m wdz)
  have "skip_flags m (length (pre @ [CHR ''%''])) = skip_flags m (length (pre @ [CHR ''%'']) + length (fl @ z))"
    unfolding v1 by (rule skip_flags_run) (use fl zf in \<open>auto simp: strchr_def\<close>)
  then have s1: "skip_flags m (length pre + 1) = skip_flags m q" by (simp add: q_def add.assoc)
  obtain c0 r0 where cr: "w @ c # r = c0 # r0" and c0: "\<not> strchr flag_chars c0"
  proof (cases w)
    case Nil
    with c that show ?thesis by simp
  next
    case (Cons x w')
    then have "x \<notin> set flag_chars" using hd_dropWhile[of "\<lambda>x. x \<in> set flag_chars" wd]
      unfolding w_def by fastforce
    moreover have "x \<noteq> NUL" using ww Cons width_not_nul by simp
    ultimately show ?thesis using that[of x "w' @ c # r"] Cons by (simp add: strchr_def)
  qed
  have v2: "m = (pre @ CHR ''%'' # fl @ z) @ c0 # r0" by (simp add: m wdz cr)
  have "peek m q = Some c0" unfolding v2 q_def by (simp add: peek_def nth_append)
  with c0 have "skip_flags m q = Some q" by (subst skip_flags.simps) simp
  with s1 have A: "skip_flags m (length pre + 1) = Some q" by simp
  \<comment> \<open>the width loop\<close>
  have v3: "m = (pre @ CHR ''%'' # fl @ z) @ w @ c # r" by (simp add: m wdz)
  have dq: "drop q m = w @ c # r" by (rule drop_at[OF v3]) (simp add: q_def)
  have v4: "m = pre @ (CHR ''%'' # fl @ z) @ w @ c # r" by (simp add: m wdz)
  have dp: "drop (length pre) m = (CHR ''%'' # fl @ z) @ w @ c # r"
    by (rule drop_at[OF v4]) simp
  have pend: "take (q - length pre) (drop (length pre) m) = CHR ''%'' # fl @ z"
    unfolding dp by (simp add: q_def)
  have sb: "subst_stars wd ws = z @ subst_stars w ws"
    unfolding wdz subst_stars_append using z0 by (simp add: subst_stars_none)
  have tk: "take (length w) (drop q m) = w" unfolding dq by simp
  have l: "length ws = stars w" using len z0 unfolding wdz by simp
  have f: "length ([] @ take (q - length pre) (drop (length pre) m) @ subst_stars w ws) < 255"
    using fits unfolding pend sb by simp
  have qle: "length pre \<le> q" by (simp add: q_def)
  from width_field_run[OF tk ww qle l args f]
  obtain hp' buf' where
    r: "width_field h m narg stk (length pre) q (length pre) [] n
         = width_field h m narg stk (length pre) (q + length w) hp' buf' (n + length ws)"
    and hp': "hp' \<le> q + length w"
    and V: "buf' @ take (q + length w - hp') (drop hp' m)
         = [] @ take (q - length pre) (drop (length pre) m) @ subst_stars w ws"
    by blast
  have qw: "q + length w = length pre + 1 + length fl + length wd"
    by (simp add: q_def wdz)
  from V have V': "buf' @ take (q + length w - hp') (drop hp' m) = CHR ''%'' # fl @ subst_stars wd ws"
    unfolding pend sb by simp
  from A r hp' V' show ?thesis unfolding qw by blast
qed


lemma fields_run:
  assumes fl: "\<forall>x\<in>set fl. x \<in> set flag_chars"
    and wd: "\<forall>x\<in>set wd. x \<in> set width_chars"
    and pr: "pr = [] \<or> (\<exists>p. pr = CHR ''.'' # p \<and> (\<forall>x\<in>set p. x \<in> set width_chars))"
    and c: "\<not> strchr flag_chars c" "c \<noteq> CHR ''.''"
    and m: "m = pre @ CHR ''%'' # fl @ wd @ pr @ c # r"
    and len: "length ws = stars (wd @ pr)"
    and args: "\<forall>i<length ws. uint2str h (cstr (drop (length pre) m)) narg stk (n + 1 + i) = Inr (ws ! i)"
    and fits: "length (CHR ''%'' # fl @ subst_stars (wd @ pr) ws) < 255"
    and c3: "c3 = length pre + 1 + length fl + length wd + length pr"
  shows "\<exists>h3 b3.
       h3 \<le> c3
     \<and> b3 @ take (c3 - h3) (drop h3 m) = CHR ''%'' # fl @ subst_stars (wd @ pr) ws
     \<and> (\<forall>e. width_field h m narg stk (length pre) c3 h3 b3 (n + length ws) = Inl e
            \<longrightarrow> parse_placeholder h m narg stk (length pre) n = Inl e)
     \<and> (width_field h m narg stk (length pre) c3 h3 b3 (n + length ws)
            = Inr (c3, h3, b3, n + length ws)
          \<longrightarrow> parse_placeholder h m narg stk (length pre) n =
              ebind (in_bounds (peek m c3)) (\<lambda>lm.
              let c4 = (if strchr length_chars lm then c3 + 1 else c3) in
              ebind (in_bounds (peek m c4)) (\<lambda>ty.
              if \<not> strchr type_chars ty then Inl (UnsupportedType ty (cstr (drop (length pre) m)))
              else
              ebind (in_bounds (span m h3 (c4 + 1))) (\<lambda>rest.
              ebind (copy2placeholder b3 rest) (\<lambda>b4.
                Inr (c4, ty, b4, n + length ws))))))"
proof -
  define c2 where "c2 = length pre + 1 + length fl + length wd"
  define ws1 where "ws1 = take (stars wd) ws"
  define ws2 where "ws2 = drop (stars wd) ws"
  have ws: "ws = ws1 @ ws2" by (simp add: ws1_def ws2_def)
  have l1: "length ws1 = stars wd" and l2: "length ws2 = stars pr"
    using len by (simp_all add: ws1_def ws2_def)
  have sb: "subst_stars (wd @ pr) ws = subst_stars wd ws1 @ subst_stars pr ws2"
    unfolding subst_stars_append ws1_def ws2_def ..
  have a1: "\<forall>i<length ws1. uint2str h (cstr (drop (length pre) m)) narg stk (n + 1 + i) = Inr (ws1 ! i)"
    using args unfolding ws by (auto simp: nth_append)
  have a2: "\<forall>i<length ws2. uint2str h (cstr (drop (length pre) m)) narg stk (n + length ws1 + 1 + i)
                = Inr (ws2 ! i)"
  proof (intro allI impI)
    fix i assume "i < length ws2"
    then have "length ws1 + i < length ws" by (simp add: ws)
    with args have "uint2str h (cstr (drop (length pre) m)) narg stk (n + 1 + (length ws1 + i))
        = Inr (ws ! (length ws1 + i))" by blast
    then show "uint2str h (cstr (drop (length pre) m)) narg stk (n + length ws1 + 1 + i) = Inr (ws2 ! i)"
      by (simp add: ws add.assoc add.left_commute)
  qed
  have f1: "length (CHR ''%'' # fl @ subst_stars wd ws1) < 255"
    using fits unfolding sb by simp
  obtain c0 r0 where t0: "pr @ c # r = c0 # r0" and c0: "\<not> strchr flag_chars c0"
    and c0w: "pr \<noteq> [] \<longrightarrow> c0 = CHR ''.''" and c0c: "pr = [] \<longrightarrow> c0 = c"
    using pr c dot_classes by (cases pr) auto
  have m0: "m = pre @ CHR ''%'' # fl @ wd @ c0 # r0" by (simp add: m t0)
  from flags_width_run[OF fl wd c0 m0 l1 a1 f1]
  obtain q hp' buf' where
    A: "skip_flags m (length pre + 1) = Some q"
    and R: "width_field h m narg stk (length pre) q (length pre) [] n
         = width_field h m narg stk (length pre) c2 hp' buf' (n + length ws1)"
    and hp': "hp' \<le> c2"
    and V1: "buf' @ take (c2 - hp') (drop hp' m) = CHR ''%'' # fl @ subst_stars wd ws1"
    unfolding c2_def by blast
  have v2: "m = (pre @ CHR ''%'' # fl @ wd) @ c0 # r0" by (simp add: m0)
  have p2: "peek m c2 = Some c0" unfolding v2 c2_def by (simp add: peek_def nth_append)
  have P: "parse_placeholder h m narg stk (length pre) n =
     ebind (width_field h m narg stk (length pre) c2 hp' buf' (n + length ws1)) (\<lambda>(c2, h2, b2, n2).
     ebind (in_bounds (peek m c2)) (\<lambda>dot.
     ebind (if dot = CHR ''.'' then width_field h m narg stk (length pre) (c2 + 1) h2 b2 n2
            else Inr (c2, h2, b2, n2)) (\<lambda>(c3, h3, b3, n3).
     ebind (in_bounds (peek m c3)) (\<lambda>lm.
     let c4 = (if strchr length_chars lm then c3 + 1 else c3) in
     ebind (in_bounds (peek m c4)) (\<lambda>ty.
     if \<not> strchr type_chars ty then Inl (UnsupportedType ty (cstr (drop (length pre) m)))
     else
     ebind (in_bounds (span m h3 (c4 + 1))) (\<lambda>rest.
     ebind (copy2placeholder b3 rest) (\<lambda>b4.
       Inr (c4, ty, b4, n3))))))))"
    unfolding parse_placeholder_def
    by (simp only: A in_bounds_def option.case ebind_Inr R)
  show ?thesis
  proof (cases "pr = []")
    case True
    then have e: "c3 = c2" "ws2 = []" "length ws = length ws1" "c0 = c"
      using l2 c0c by (simp_all add: c3 c2_def ws)
    have V: "buf' @ take (c3 - hp') (drop hp' m) = CHR ''%'' # fl @ subst_stars (wd @ pr) ws"
      using V1 True unfolding sb e by simp
    have i: "\<forall>e. width_field h m narg stk (length pre) c3 hp' buf' (n + length ws) = Inl e
            \<longrightarrow> parse_placeholder h m narg stk (length pre) n = Inl e"
      unfolding P e by simp
    have ii: "width_field h m narg stk (length pre) c3 hp' buf' (n + length ws)
            = Inr (c3, hp', buf', n + length ws)
          \<longrightarrow> parse_placeholder h m narg stk (length pre) n =
              ebind (in_bounds (peek m c3)) (\<lambda>lm.
              let c4 = (if strchr length_chars lm then c3 + 1 else c3) in
              ebind (in_bounds (peek m c4)) (\<lambda>ty.
              if \<not> strchr type_chars ty then Inl (UnsupportedType ty (cstr (drop (length pre) m)))
              else
              ebind (in_bounds (span m hp' (c4 + 1))) (\<lambda>rest.
              ebind (copy2placeholder buf' rest) (\<lambda>b4.
                Inr (c4, ty, b4, n + length ws)))))"
    proof
      assume w: "width_field h m narg stk (length pre) c3 hp' buf' (n + length ws)
            = Inr (c3, hp', buf', n + length ws)"
      have d: "in_bounds (peek m c2) = Inr c" using p2 e by (simp add: in_bounds_def)
      show "parse_placeholder h m narg stk (length pre) n =
              ebind (in_bounds (peek m c3)) (\<lambda>lm.
              let c4 = (if strchr length_chars lm then c3 + 1 else c3) in
              ebind (in_bounds (peek m c4)) (\<lambda>ty.
              if \<not> strchr type_chars ty then Inl (UnsupportedType ty (cstr (drop (length pre) m)))
              else
              ebind (in_bounds (span m hp' (c4 + 1))) (\<lambda>rest.
              ebind (copy2placeholder buf' rest) (\<lambda>b4.
                Inr (c4, ty, b4, n + length ws)))))"
        unfolding P using w c(2) unfolding e
        by (simp only: ebind_Inr prod.case d simp_thms if_False)
    qed
    from hp' V i ii show ?thesis unfolding e(1)[symmetric] by blast
  next
    case False
    with pr obtain p where p: "pr = CHR ''.'' # p" and pw: "\<forall>x\<in>set p. x \<in> set width_chars"
      by auto
    from False c0w have c0d: "c0 = CHR ''.''" by simp
    have w1: "width_field h m narg stk (length pre) c2 hp' buf' (n + length ws1)
        = Inr (c2, hp', buf', n + length ws1)"
      using p2 dot_classes(2) unfolding c0d by (rule width_field_stop)
    have d: "in_bounds (peek m c2) = Inr (CHR ''.'')" using p2 c0d by (simp add: in_bounds_def)
    have P': "parse_placeholder h m narg stk (length pre) n =
       ebind (width_field h m narg stk (length pre) (c2 + 1) hp' buf' (n + length ws1))
         (\<lambda>(c3, h3, b3, n3).
       ebind (in_bounds (peek m c3)) (\<lambda>lm.
       let c4 = (if strchr length_chars lm then c3 + 1 else c3) in
       ebind (in_bounds (peek m c4)) (\<lambda>ty.
       if \<not> strchr type_chars ty then Inl (UnsupportedType ty (cstr (drop (length pre) m)))
       else
       ebind (in_bounds (span m h3 (c4 + 1))) (\<lambda>rest.
       ebind (copy2placeholder b3 rest) (\<lambda>b4.
         Inr (c4, ty, b4, n3))))))"
      unfolding P by (simp only: w1 ebind_Inr prod.case d simp_thms if_True)
    \<comment> \<open>the precision loop\<close>
    have v3: "m = (pre @ CHR ''%'' # fl @ wd @ [CHR ''.'']) @ p @ c # r" by (simp add: m p)
    have dq: "drop (c2 + 1) m = p @ c # r" by (rule drop_at[OF v3]) (simp add: c2_def)
    have tk: "take (length p) (drop (c2 + 1) m) = p" unfolding dq by simp
    have lt: "c2 < length m" using p2 by (rule peek_Some_lt)
    have mc: "m ! c2 = CHR ''.''" using p2 c0d by (simp add: peek_def split: if_splits)
    have pe: "take (c2 + 1 - hp') (drop hp' m) = take (c2 - hp') (drop hp' m) @ [CHR ''.'']"
      using pending_step[OF hp' lt] mc by simp
    have lp: "length ws2 = stars p" using l2 p by simp
    have sp: "subst_stars pr ws2 = CHR ''.'' # subst_stars p ws2" by (simp add: p)
    have f2: "length (buf' @ take (c2 + 1 - hp') (drop hp' m) @ subst_stars p ws2) < 255"
    proof -
      have "buf' @ take (c2 + 1 - hp') (drop hp' m) @ subst_stars p ws2
          = (buf' @ take (c2 - hp') (drop hp' m)) @ CHR ''.'' # subst_stars p ws2"
        unfolding pe by simp
      also have "\<dots> = CHR ''%'' # fl @ subst_stars (wd @ pr) ws"
        unfolding V1 sb sp by simp
      finally show ?thesis using fits by simp
    qed
    have hle: "hp' \<le> c2 + 1" using hp' by simp
    from width_field_run[OF tk pw hle lp a2 f2]
    obtain h3 b3 where
      r2: "width_field h m narg stk (length pre) (c2 + 1) hp' buf' (n + length ws1)
         = width_field h m narg stk (length pre) (c2 + 1 + length p) h3 b3 (n + length ws1 + length ws2)"
      and h3: "h3 \<le> c2 + 1 + length p"
      and V2: "b3 @ take (c2 + 1 + length p - h3) (drop h3 m)
         = buf' @ take (c2 + 1 - hp') (drop hp' m) @ subst_stars p ws2"
      by blast
    have e: "c2 + 1 + length p = c3" "n + length ws1 + length ws2 = n + length ws"
      by (simp_all add: c3 c2_def p ws)
    have V: "b3 @ take (c3 - h3) (drop h3 m) = CHR ''%'' # fl @ subst_stars (wd @ pr) ws"
    proof -
      have "b3 @ take (c3 - h3) (drop h3 m)
          = (buf' @ take (c2 - hp') (drop hp' m)) @ CHR ''.'' # subst_stars p ws2"
        using V2 unfolding e pe by simp
      also have "\<dots> = CHR ''%'' # fl @ subst_stars (wd @ pr) ws"
        unfolding V1 sb sp by simp
      finally show ?thesis .
    qed
    have i: "\<forall>e. width_field h m narg stk (length pre) c3 h3 b3 (n + length ws) = Inl e
            \<longrightarrow> parse_placeholder h m narg stk (length pre) n = Inl e"
      unfolding P' r2 e by simp
    have ii: "width_field h m narg stk (length pre) c3 h3 b3 (n + length ws)
            = Inr (c3, h3, b3, n + length ws)
          \<longrightarrow> parse_placeholder h m narg stk (length pre) n =
              ebind (in_bounds (peek m c3)) (\<lambda>lm.
              let c4 = (if strchr length_chars lm then c3 + 1 else c3) in
              ebind (in_bounds (peek m c4)) (\<lambda>ty.
              if \<not> strchr type_chars ty then Inl (UnsupportedType ty (cstr (drop (length pre) m)))
              else
              ebind (in_bounds (span m h3 (c4 + 1))) (\<lambda>rest.
              ebind (copy2placeholder b3 rest) (\<lambda>b4.
                Inr (c4, ty, b4, n + length ws)))))"
    proof
      assume w: "width_field h m narg stk (length pre) c3 h3 b3 (n + length ws)
            = Inr (c3, h3, b3, n + length ws)"
      show "parse_placeholder h m narg stk (length pre) n =
              ebind (in_bounds (peek m c3)) (\<lambda>lm.
              let c4 = (if strchr length_chars lm then c3 + 1 else c3) in
              ebind (in_bounds (peek m c4)) (\<lambda>ty.
              if \<not> strchr type_chars ty then Inl (UnsupportedType ty (cstr (drop (length pre) m)))
              else
              ebind (in_bounds (span m h3 (c4 + 1))) (\<lambda>rest.
              ebind (copy2placeholder b3 rest) (\<lambda>b4.
                Inr (c4, ty, b4, n + length ws)))))"
        unfolding P' r2 e by (simp only: w ebind_Inr prod.case)
    qed
    from h3 V i ii show ?thesis unfolding e by blast
  qed
qed


lemma spec_fieldsD:
  assumes "spec_fields fl wd pr lm"
  shows "\<forall>x\<in>set fl. x \<in> set flag_chars" "\<forall>x\<in>set wd. x \<in> set width_chars"
    "pr = [] \<or> (\<exists>p. pr = CHR ''.'' # p \<and> (\<forall>x\<in>set p. x \<in> set width_chars))"
    "lm = [] \<or> (\<exists>l. lm = [l] \<and> l \<in> set length_chars)"
  using assms
  by (auto simp: spec_fields_def list_all_iff split: list.splits)

lemma take_pending_more:
  assumes "hp \<le> c"
  shows "take (c + k - hp) (drop hp m) = take (c - hp) (drop hp m) @ take k (drop c m)"
proof -
  from assms have e: "c + k - hp = (c - hp) + k" by simp
  from assms have d: "drop (c - hp) (drop hp m) = drop c m" by simp
  show ?thesis unfolding e take_add d ..
qed

lemma parse_placeholder_stars:
  assumes sf: "spec_fields fl wd pr lm"
    and ty: "ty \<in> set type_chars"
    and m: "m = pre @ CHR ''%'' # fl @ wd @ pr @ lm @ ty # post"
    and len: "length ws = stars (wd @ pr)"
    and args: "\<forall>i<length ws. uint2str h (cstr (drop (length pre) m)) narg stk (n + 1 + i) = Inr (ws ! i)"
    and fits: "length (CHR ''%'' # fl @ subst_stars (wd @ pr) ws @ lm @ [ty]) < 255"
  shows "parse_placeholder h m narg stk (length pre) n
       = Inr (length pre + 1 + length (fl @ wd @ pr @ lm), ty,
              CHR ''%'' # fl @ subst_stars (wd @ pr) ws @ lm @ [ty], n + length ws)"
proof -
  define c3 where "c3 = length pre + 1 + length fl + length wd + length pr"
  define c4 where "c4 = c3 + length lm"
  note sd = spec_fieldsD[OF sf]
  obtain c r where t2: "lm @ ty # post = c # r"
    and c1: "\<not> strchr width_chars c" and c2: "\<not> strchr flag_chars c" and c3': "c \<noteq> CHR ''.''"
    using sd(4) type_char_classes[OF ty] length_char_classes by (cases lm) auto
  have m': "m = pre @ CHR ''%'' # fl @ wd @ pr @ c # r" by (simp add: m t2)
  have f': "length (CHR ''%'' # fl @ subst_stars (wd @ pr) ws) < 255" using fits by simp
  from fields_run[OF sd(1,2,3) c2 c3' m' len args f' c3_def]
  obtain h3 b3 where h3: "h3 \<le> c3"
    and V: "b3 @ take (c3 - h3) (drop h3 m) = CHR ''%'' # fl @ subst_stars (wd @ pr) ws"
    and K: "width_field h m narg stk (length pre) c3 h3 b3 (n + length ws)
            = Inr (c3, h3, b3, n + length ws)
          \<longrightarrow> parse_placeholder h m narg stk (length pre) n =
              ebind (in_bounds (peek m c3)) (\<lambda>lm.
              let c4 = (if strchr length_chars lm then c3 + 1 else c3) in
              ebind (in_bounds (peek m c4)) (\<lambda>ty.
              if \<not> strchr type_chars ty then Inl (UnsupportedType ty (cstr (drop (length pre) m)))
              else
              ebind (in_bounds (span m h3 (c4 + 1))) (\<lambda>rest.
              ebind (copy2placeholder b3 rest) (\<lambda>b4.
                Inr (c4, ty, b4, n + length ws)))))"
    by blast
  have v4: "m = (pre @ CHR ''%'' # fl @ wd @ pr) @ c # r" by (simp add: m')
  have pD: "peek m c3 = Some c"
    unfolding v4 c3_def by (simp add: peek_def nth_append add.assoc)
  from K width_field_stop[OF pD c1] have P: "parse_placeholder h m narg stk (length pre) n =
              ebind (in_bounds (peek m c3)) (\<lambda>lm.
              let c4 = (if strchr length_chars lm then c3 + 1 else c3) in
              ebind (in_bounds (peek m c4)) (\<lambda>ty.
              if \<not> strchr type_chars ty then Inl (UnsupportedType ty (cstr (drop (length pre) m)))
              else
              ebind (in_bounds (span m h3 (c4 + 1))) (\<lambda>rest.
              ebind (copy2placeholder b3 rest) (\<lambda>b4.
                Inr (c4, ty, b4, n + length ws)))))" by blast
  have D: "(if strchr length_chars c then c3 + 1 else c3) = c4"
    using sd(4) t2 type_char_classes(4)[OF ty] length_char_classes(4)
    by (cases lm) (auto simp: c4_def)
  have v5: "m = (pre @ CHR ''%'' # fl @ wd @ pr @ lm) @ ty # post" by (simp add: m)
  have pE: "peek m c4 = Some ty"
    unfolding v5 c3_def c4_def by (simp add: peek_def nth_append add.assoc)
  have v6: "m = (pre @ CHR ''%'' # fl @ wd @ pr) @ (lm @ [ty]) @ post" by (simp add: m)
  have d3: "drop c3 m = (lm @ [ty]) @ post" by (rule drop_at[OF v6]) (simp add: c3_def)
  have c4l: "c4 + 1 \<le> length m" using pE[THEN peek_Some_lt] by simp
  have h4: "h3 \<le> c4 + 1" using h3 by (simp add: c4_def)
  have "take (c4 + 1 - h3) (drop h3 m) = take (c3 - h3) (drop h3 m) @ take (length lm + 1) (drop c3 m)"
    using take_pending_more[OF h3, of "length lm + 1" m] by (simp add: c4_def add.assoc)
  also have "take (length lm + 1) (drop c3 m) = lm @ [ty]" unfolding d3 by simp
  finally have rest: "take (c4 + 1 - h3) (drop h3 m) = take (c3 - h3) (drop h3 m) @ lm @ [ty]" .
  have F: "span m h3 (c4 + 1) = Some (take (c3 - h3) (drop h3 m) @ lm @ [ty])"
    using h4 c4l rest by (simp add: span_def)
  have bb: "b3 @ take (c3 - h3) (drop h3 m) @ lm @ [ty]
      = CHR ''%'' # fl @ subst_stars (wd @ pr) ws @ lm @ [ty]"
    using V by (metis append.assoc append_Cons)
  have G: "copy2placeholder b3 (take (c3 - h3) (drop h3 m) @ lm @ [ty])
      = Inr (CHR ''%'' # fl @ subst_stars (wd @ pr) ws @ lm @ [ty])"
  proof -
    have "length (b3 @ take (c3 - h3) (drop h3 m) @ lm @ [ty]) < 255"
      unfolding bb using fits .
    then have "\<not> 255 - length b3 \<le> length (take (c3 - h3) (drop h3 m) @ lm @ [ty])"
      unfolding length_append by arith
    then show ?thesis unfolding copy2placeholder_def by (simp only: if_False bb)
  qed
  have "parse_placeholder h m narg stk (length pre) n
      = Inr (c4, ty, CHR ''%'' # fl @ subst_stars (wd @ pr) ws @ lm @ [ty], n + length ws)"
    unfolding P
    apply (simp only: pD in_bounds_def option.case ebind_Inr Let_def D)
    apply (simp only: pE option.case ebind_Inr type_char_classes(5)[OF ty] not_True_eq_False
        if_False F G)
    done
  then show ?thesis
    unfolding c4_def c3_def by (simp add: add.assoc)
qed

lemma parse_placeholder_star_fails:
  assumes sf: "spec_fields fl wd pr []"
    and m: "m = pre @ CHR ''%'' # fl @ wd @ pr @ CHR ''*'' # post"
    and len: "length ws = stars (wd @ pr)"
    and args: "\<forall>i<length ws. uint2str h (cstr (drop (length pre) m)) narg stk (n + 1 + i) = Inr (ws ! i)"
    and bad: "uint2str h (cstr (drop (length pre) m)) narg stk (n + 1 + length ws) = Inl e"
    and fits: "length (CHR ''%'' # fl @ subst_stars (wd @ pr) ws) < 255"
  shows "parse_placeholder h m narg stk (length pre) n = Inl e"
proof -
  define c3 where "c3 = length pre + 1 + length fl + length wd + length pr"
  note sd = spec_fieldsD[OF sf]
  have c: "\<not> strchr flag_chars (CHR ''*'')" "CHR ''*'' \<noteq> CHR ''.''"
    by (simp_all add: strchr_def flag_chars_def)
  from fields_run[OF sd(1,2,3) c m len args fits c3_def]
  obtain h3 b3 where h3: "h3 \<le> c3"
    and V: "b3 @ take (c3 - h3) (drop h3 m) = CHR ''%'' # fl @ subst_stars (wd @ pr) ws"
    and K: "\<forall>e. width_field h m narg stk (length pre) c3 h3 b3 (n + length ws) = Inl e
            \<longrightarrow> parse_placeholder h m narg stk (length pre) n = Inl e"
    by blast
  have v4: "m = (pre @ CHR ''%'' # fl @ wd @ pr) @ CHR ''*'' # post" by (simp add: m)
  have pD: "peek m c3 = Some (CHR ''*'')"
    unfolding v4 c3_def by (simp add: peek_def nth_append add.assoc)
  have f: "length (b3 @ take (c3 - h3) (drop h3 m)) < 255" unfolding V using fits .
  have b: "uint2str h (cstr (drop (length pre) m)) narg stk (n + length ws + 1) = Inl e"
    using bad by (simp add: add.assoc add.commute)
  from width_field_star_fails[OF pD h3 f b] K show ?thesis by blast
qed

lemma uint2str_append:
  assumes "narg \<le> length stk"
  shows "uint2str h ph narg (stk @ x) idx = uint2str h ph narg stk idx"
  using assms by (auto simp: uint2str_def index_def nth_append)

lemma push_leading_at:
  assumes "cur st = length pre" "head st \<le> cur st"
  shows "push_leading (pre @ rest) st
      = Inr (if head st < cur st then stack st @ [LStr (drop (head st) pre)] else stack st)"
  using assms by (auto simp: push_leading_def span_def in_bounds_def)

lemma conversion_m_stars:
  assumes sf: "spec_fields fl wd pr lm"
    and cu: "cur st = length pre" and hd: "head st \<le> cur st"
    and na: "narg \<le> length (stack st)"
    and m: "m = pre @ CHR ''%'' # fl @ wd @ pr @ lm @ CHR ''m'' # post"
    and len: "length ws = stars (wd @ pr)"
    and args: "\<forall>i<length ws. uint2str h (cstr (drop (length pre) m)) narg (stack st)
                  (nextarg st + 1 + i) = Inr (ws ! i)"
    and fits: "length (CHR ''%'' # fl @ subst_stars (wd @ pr) ws @ lm @ ''m'') < 255"
  shows "conversion h m narg st
       = Inr (st\<lparr>stack := (if head st < cur st then stack st @ [LStr (drop (head st) pre)]
                             else stack st)
                           @ [LStr (cstr (strerror h (errno st)))],
                 cur := length pre + 1 + length (fl @ wd @ pr @ lm),
                 head := length pre + 1 + length (fl @ wd @ pr @ lm) + 1,
                 nextarg := nextarg st + length ws\<rparr>)"
proof -
  define stk where "stk = (if head st < cur st then stack st @ [LStr (drop (head st) pre)]
                           else stack st)"
  have ty: "CHR ''m'' \<in> set type_chars" by (simp add: type_chars_def)
  have pl: "push_leading m st = Inr stk"
    unfolding m stk_def using cu hd by (rule push_leading_at)
  have a: "\<forall>i<length ws. uint2str h (cstr (drop (length pre) m)) narg stk
                  (nextarg st + 1 + i) = Inr (ws ! i)"
    using args uint2str_append[OF na] by (simp add: stk_def)
  have f: "length (CHR ''%'' # fl @ subst_stars (wd @ pr) ws @ lm @ [CHR ''m'']) < 255"
    using fits by simp
  note pp = parse_placeholder_stars[OF sf ty m len a f]
  show ?thesis
    unfolding conversion_def pl ebind_Inr cu pp
    by (simp add: emit_def stk_def cu)
qed

lemma conversion_star_fails:
  assumes sf: "spec_fields fl wd pr []"
    and cu: "cur st = length pre" and hd: "head st \<le> cur st"
    and na: "narg \<le> length (stack st)"
    and m: "m = pre @ CHR ''%'' # fl @ wd @ pr @ CHR ''*'' # post"
    and len: "length ws = stars (wd @ pr)"
    and args: "\<forall>i<length ws. uint2str h (cstr (drop (length pre) m)) narg (stack st)
                  (nextarg st + 1 + i) = Inr (ws ! i)"
    and bad: "uint2str h (cstr (drop (length pre) m)) narg (stack st)
                  (nextarg st + 1 + length ws) = Inl e"
    and fits: "length (CHR ''%'' # fl @ subst_stars (wd @ pr) ws) < 255"
  shows "conversion h m narg st = Inl e"
proof -
  define stk where "stk = (if head st < cur st then stack st @ [LStr (drop (head st) pre)]
                           else stack st)"
  have pl: "push_leading m st = Inr stk"
    unfolding m stk_def using cu hd by (rule push_leading_at)
  have a: "\<forall>i<length ws. uint2str h (cstr (drop (length pre) m)) narg stk
                  (nextarg st + 1 + i) = Inr (ws ! i)"
    using args uint2str_append[OF na] by (simp add: stk_def)
  have b: "uint2str h (cstr (drop (length pre) m)) narg stk (nextarg st + 1 + length ws) = Inl e"
    using bad uint2str_append[OF na] by (simp add: stk_def)
  note pp = parse_placeholder_star_fails[OF sf m len a b fits]
  show ?thesis
    unfolding conversion_def pl ebind_Inr cu pp by simp
qed

lemma uint2str_cases:
  "narg < idx \<Longrightarrow> uint2str h ph narg stk idx = Inl (NotEnoughArgs ph)"
  "idx \<le> narg \<Longrightarrow> index stk idx = Some (LInt i) \<Longrightarrow> - (2 ^ 31) \<le> i \<Longrightarrow> i < 2 ^ 31
     \<Longrightarrow> uint2str h ph narg stk idx = Inr (show_int i)"
  "idx \<le> narg \<Longrightarrow> index stk idx = Some v \<Longrightarrow> v \<notin> range LInt \<Longrightarrow> v \<notin> range LFlt
     \<Longrightarrow> uint2str h ph narg stk idx = Inl (ArgError idx)"
  by (auto simp: uint2str_def split: lua_value.splits)

lemma fields_not_percent:
  assumes "spec_fields fl wd pr lm" "x \<noteq> CHR ''%''"
  shows "\<exists>c r. fl @ wd @ pr @ lm @ x # post = c # r \<and> c \<noteq> CHR ''%''"
proof -
  have a: "y \<noteq> CHR ''%''" if "y \<in> set flag_chars" for y
    using that by (auto simp: flag_chars_def)
  have b: "y \<noteq> CHR ''%''" if "y \<in> set width_chars" for y
    using that by (auto simp: width_chars_def)
  have c: "y \<noteq> CHR ''%''" if "y \<in> set length_chars" for y
    using that by (auto simp: length_chars_def)
  note sd = spec_fieldsD[OF assms(1)]
  have 1: "\<forall>y\<in>set fl. y \<noteq> CHR ''%''" using sd(1) a by blast
  have 2: "\<forall>y\<in>set wd. y \<noteq> CHR ''%''" using sd(2) b by blast
  have 3: "\<forall>y\<in>set pr. y \<noteq> CHR ''%''" using sd(3) b by fastforce
  have 4: "\<forall>y\<in>set lm. y \<noteq> CHR ''%''" using sd(4) c by fastforce
  define ys where "ys = fl @ wd @ pr @ lm"
  have ys: "\<forall>y\<in>set ys. y \<noteq> CHR ''%''" using 1 2 3 4 by (simp add: ys_def ball_Un)
  have "\<exists>c r. ys @ x # post = c # r \<and> c \<noteq> CHR ''%''"
    using ys assms(2) by (cases ys) simp_all
  then show ?thesis by (simp add: ys_def)
qed

lemma lua_concat_m:
  "lua_concat (stk @ ((if lit1 = [] then [] else [LStr lit1]) @ [LStr s]
                      @ (if lit2 = [] then [] else [LStr lit2])))
              (length ((if lit1 = [] then [] else [LStr lit1]) @ [LStr s]
                      @ (if lit2 = [] then [] else [LStr lit2])))
   = Inr (stk @ [LStr (lit1 @ s @ lit2)])"
  by (simp add: lua_concat_def text_of_def)

lemma format_arguments_m_stars:
  assumes sf: "spec_fields fl wd pr lm" and l1: "plain_text lit" and l2: "plain_text lit'"
    and t: "t = lit @ CHR ''%'' # fl @ wd @ pr @ lm @ CHR ''m'' # lit'"
    and len: "length ws = stars (wd @ pr)"
    and args: "\<forall>i<length ws. uint2str h (cstr (drop (length lit) (t @ [NUL])))
                  (length (LStr t # args)) (LStr t # args) (1 + 1 + i) = Inr (ws ! i)"
    and fits: "length (CHR ''%'' # fl @ subst_stars (wd @ pr) ws @ lm @ ''m'') < 255"
  shows "format_arguments h e (LStr t # args) 1
       = Inr (1 + length ws,
              (LStr t # args)
                 @ ((if lit = [] then [] else [LStr lit])
                    @ [LStr (cstr (strerror h e))]
                    @ (if lit' = [] then [] else [LStr lit'])), e)"
proof -
  define stk where "stk = LStr t # args"
  define narg where "narg = length stk"
  define sp where "sp = fl @ wd @ pr @ lm"
  define q where "q = length lit + 1 + length sp"
  define m where "m = t @ [NUL]"
  define k where "k = 1 + length ws"
  let ?st0 = "\<lparr>stack = stk, cur = 0, head = 0, nextarg = 1, errno = e\<rparr>"
  have n1: "NUL \<notin> set lit" "CHR ''%'' \<notin> set lit" "NUL \<notin> set lit'" "CHR ''%'' \<notin> set lit'"
    using l1 l2 by (auto simp: plain_text_def list_all_iff)
  \<comment> \<open>the literal run before the specifier\<close>
  have v1: "m = [] @ lit @ (CHR ''%'' # fl @ wd @ pr @ lm @ CHR ''m'' # lit' @ [NUL])"
    by (simp add: m_def t)
  have s1: "format_loop h m narg ?st0 = format_loop h m narg (?st0\<lparr>cur := length lit\<rparr>)"
    using format_loop_literal[OF n1(1,2), of ?st0 "[]" h
        "CHR ''%'' # fl @ wd @ pr @ lm @ CHR ''m'' # lit' @ [NUL]" narg]
    unfolding v1[symmetric] by simp
  \<comment> \<open>the specifier\<close>
  let ?st1 = "?st0\<lparr>cur := length lit\<rparr>"
  have v2: "m = lit @ CHR ''%'' # fl @ wd @ pr @ lm @ CHR ''m'' # (lit' @ [NUL])"
    by (simp add: m_def t)
  from fields_not_percent[OF sf, of "CHR ''m''" "lit' @ [NUL]"] obtain c r where
    cr: "fl @ wd @ pr @ lm @ CHR ''m'' # (lit' @ [NUL]) = c # r" and c: "c \<noteq> CHR ''%''" by auto
  have p0: "peek m (cur ?st1) = Some (CHR ''%'')" unfolding v2 by (simp add: peek_def)
  have p1: "peek m (cur ?st1 + 1) = Some c"
    unfolding v2 cr by (simp add: peek_def nth_append)
  let ?pieces1 = "if lit = [] then [] else [LStr lit]"
  let ?E = "LStr (cstr (strerror h e))"
  have a: "\<forall>i<length ws. uint2str h (cstr (drop (length lit) m)) narg (stack ?st1)
                  (nextarg ?st1 + 1 + i) = Inr (ws ! i)"
    using args by (simp add: m_def narg_def stk_def)
  have cv: "conversion h m narg ?st1
      = Inr (?st1\<lparr>stack := (stk @ ?pieces1) @ [?E], cur := q, head := q + 1, nextarg := k\<rparr>)"
    using conversion_m_stars[OF sf _ _ _ v2 len a fits]
    by (auto simp: q_def sp_def narg_def k_def)
  let ?st2 = "\<lparr>stack = (stk @ ?pieces1) @ [?E], cur = q + 1, head = q + 1, nextarg = k, errno = e\<rparr>"
  have s2: "format_loop h m narg ?st1 = format_loop h m narg ?st2"
    using p0 p1 c cv by (subst format_loop.simps) simp
  \<comment> \<open>the literal run after it, and the end of the string\<close>
  have v3: "m = (lit @ CHR ''%'' # sp @ [CHR ''m'']) @ lit' @ [NUL]"
    by (simp add: m_def t sp_def)
  have q1: "q + 1 = length (lit @ CHR ''%'' # sp @ [CHR ''m''])" by (simp add: q_def)
  have s3: "format_loop h m narg ?st2 = format_loop h m narg (?st2\<lparr>cur := q + 1 + length lit'\<rparr>)"
    using format_loop_literal[OF n1(3,4), of ?st2 "lit @ CHR ''%'' # sp @ [CHR ''m'']" h "[NUL]" narg]
    unfolding v3[symmetric] q1[symmetric] by simp
  let ?st3 = "?st2\<lparr>cur := q + 1 + length lit'\<rparr>"
  have p3: "peek m (cur ?st3) = Some NUL"
    unfolding v3 by (simp add: peek_def nth_append q_def)
  have s4: "format_loop h m narg ?st3 = Inr ?st3"
    using p3 by (subst format_loop.simps) simp
  have fl: "format_loop h m narg ?st0 = Inr ?st3"
    using s1 s2 s3 s4 by simp
  \<comment> \<open>the trailing piece\<close>
  have sp3: "span m (q + 1) (q + 1 + length lit') = Some lit'"
    using span_middle[of "lit @ CHR ''%'' # sp @ [CHR ''m'']" lit' "[NUL]"]
    unfolding v3[symmetric] q1[symmetric] .
  have ix: "index stk 1 = Some (LStr t)" by (simp add: index_def stk_def)
  have "format_arguments h e stk 1
      = Inr (k, stk @ (?pieces1 @ [?E] @ (if lit' = [] then [] else [LStr lit'])), e)"
    unfolding format_arguments_def ix
    apply (simp only: option.case lua_value.case narg_def[symmetric] m_def[symmetric] fl ebind_Inr)
    using sp3 apply (simp add: in_bounds_def)
    done
  then show ?thesis unfolding stk_def k_def .
qed

lemma star_ints:
  assumes "\<forall>x\<in>set ns. - (2 ^ 31) \<le> x \<and> x < 2 ^ 31"
  shows "\<forall>i<length (map show_int ns).
           uint2str h ph (length (LStr t # map LInt ns @ rest)) (LStr t # map LInt ns @ rest) (1 + 1 + i)
             = Inr (map show_int ns ! i)"
proof (intro allI impI)
  fix i assume "i < length (map show_int ns)"
  then have i: "i < length ns" by simp
  then have r: "- (2 ^ 31) \<le> ns ! i" "ns ! i < 2 ^ 31" using assms by simp_all
  have ix: "index (LStr t # map LInt ns @ rest) (1 + 1 + i) = Some (LInt (ns ! i))"
    using i by (simp add: index_def nth_append)
  have le: "1 + 1 + i \<le> length (LStr t # map LInt ns @ rest)" using i by simp
  from uint2str_cases(2)[OF le ix r]
  show "uint2str h ph (length (LStr t # map LInt ns @ rest)) (LStr t # map LInt ns @ rest) (1 + 1 + i)
             = Inr (map show_int ns ! i)" using i by simp
qed

lemma format_lua_m_stars:
  assumes sf: "spec_fields fl wd pr lm" and l1: "plain_text lit" and l2: "plain_text lit'"
    and len: "length ns = stars (wd @ pr)"
    and rng: "\<forall>x\<in>set ns. - (2 ^ 31) \<le> x \<and> x < 2 ^ 31"
    and fits: "length (CHR ''%'' # fl @ subst_stars (wd @ pr) (map show_int ns) @ lm @ ''m'') < 255"
  shows "format_lua h e (LStr (lit @ CHR ''%'' # fl @ wd @ pr @ lm @ CHR ''m'' # lit')
                         # map LInt ns @ rest)
       = Inr (LStr (lit @ cstr (strerror h e) @ lit')
              # (if rest = [] then []
                 else [LTable (zip [1..<Suc (length rest)] rest), LInt (int (length rest))]))"
proof -
  define t where "t = lit @ CHR ''%'' # fl @ wd @ pr @ lm @ CHR ''m'' # lit'"
  define stk where "stk = LStr t # map LInt ns @ rest"
  define P where "P = (if lit = [] then [] else [LStr lit]) @ [LStr (cstr (strerror h e)) :: 'a lua_value]
                    @ (if lit' = [] then [] else [LStr lit'])"
  have l: "length (map show_int ns) = stars (wd @ pr)" using len by simp
  have fa: "format_arguments h e stk 1 = Inr (1 + length ns, stk @ P, e)"
    using format_arguments_m_stars[OF sf l1 l2 t_def l star_ints[OF rng, where h = h and rest = rest] fits,
        where e = e]
    unfolding stk_def P_def by simp
  have cc: "lua_concat (stk @ P) (length P) = Inr (stk @ [LStr (lit @ cstr (strerror h e) @ lit')])"
    unfolding P_def by (rule lua_concat_m)
  have dr: "drop (1 + length ns) stk = rest" by (simp add: stk_def)
  show ?thesis
  proof (cases "rest = []")
    case True
    then have ls: "length stk = 1 + length ns" by (simp add: stk_def)
    from fa ls have fa': "format_arguments h e stk 1 = Inr (length stk, stk @ P, e)" by simp
    from format_lua_all_used[OF fa' refl cc] True
    show ?thesis unfolding stk_def t_def by simp
  next
    case False
    then have lt: "1 + length ns < length stk" by (cases rest) (simp_all add: stk_def)
    have ll: "length stk - (1 + length ns) = length rest" by (simp add: stk_def)
    from format_lua_unused[OF fa refl cc lt] False
    show ?thesis unfolding dr ll unfolding stk_def t_def by simp
  qed
qed

lemma format_lua_star_fails:
  assumes sf: "spec_fields fl wd pr []" and l1: "plain_text lit"
    and t: "t = lit @ CHR ''%'' # fl @ wd @ pr @ CHR ''*'' # post"
    and len: "length ws = stars (wd @ pr)"
    and args: "\<forall>i<length ws. uint2str h (cstr (drop (length lit) (t @ [NUL])))
                  (length (LStr t # args)) (LStr t # args) (1 + 1 + i) = Inr (ws ! i)"
    and bad: "uint2str h (cstr (drop (length lit) (t @ [NUL])))
                  (length (LStr t # args)) (LStr t # args) (1 + 1 + length ws) = Inl er"
    and fits: "length (CHR ''%'' # fl @ subst_stars (wd @ pr) ws) < 255"
  shows "format_lua h e (LStr t # args) = Inl er"
proof -
  define stk where "stk = LStr t # args"
  define narg where "narg = length stk"
  define m where "m = t @ [NUL]"
  let ?st0 = "\<lparr>stack = stk, cur = 0, head = 0, nextarg = 1, errno = e\<rparr>"
  have n1: "NUL \<notin> set lit" "CHR ''%'' \<notin> set lit"
    using l1 by (auto simp: plain_text_def list_all_iff)
  have v1: "m = [] @ lit @ (CHR ''%'' # fl @ wd @ pr @ CHR ''*'' # post @ [NUL])"
    by (simp add: m_def t)
  have s1: "format_loop h m narg ?st0 = format_loop h m narg (?st0\<lparr>cur := length lit\<rparr>)"
    using format_loop_literal[OF n1(1,2), of ?st0 "[]" h
        "CHR ''%'' # fl @ wd @ pr @ CHR ''*'' # post @ [NUL]" narg]
    unfolding v1[symmetric] by simp
  let ?st1 = "?st0\<lparr>cur := length lit\<rparr>"
  have v2: "m = lit @ CHR ''%'' # fl @ wd @ pr @ CHR ''*'' # (post @ [NUL])"
    by (simp add: m_def t)
  from fields_not_percent[OF sf, of "CHR ''*''" "post @ [NUL]"] obtain c r where
    cr: "fl @ wd @ pr @ CHR ''*'' # (post @ [NUL]) = c # r" and c: "c \<noteq> CHR ''%''" by auto
  have p0: "peek m (cur ?st1) = Some (CHR ''%'')" unfolding v2 by (simp add: peek_def)
  have p1: "peek m (cur ?st1 + 1) = Some c"
    unfolding v2 cr by (simp add: peek_def nth_append)
  have a: "\<forall>i<length ws. uint2str h (cstr (drop (length lit) m)) narg (stack ?st1)
                  (nextarg ?st1 + 1 + i) = Inr (ws ! i)"
    using args by (simp add: m_def narg_def stk_def)
  have b: "uint2str h (cstr (drop (length lit) m)) narg (stack ?st1)
                  (nextarg ?st1 + 1 + length ws) = Inl er"
    using bad by (simp add: m_def narg_def stk_def)
  have cv: "conversion h m narg ?st1 = Inl er"
    by (rule conversion_star_fails[OF sf _ _ _ v2 len a b fits]) (simp_all add: narg_def)
  have s2: "format_loop h m narg ?st1 = Inl er"
    using p0 p1 c cv by (subst format_loop.simps) simp
  have ix: "index stk 1 = Some (LStr t)" by (simp add: index_def stk_def)
  have "format_arguments h e stk 1 = Inl er"
    unfolding format_arguments_def ix
    by (simp only: option.case lua_value.case narg_def[symmetric] m_def[symmetric] s1 s2 ebind_Inl)
  then show ?thesis unfolding format_lua_def Let_def stk_def by simp
qed

lemma spec_fields_no_lm: "spec_fields fl wd pr lm \<Longrightarrow> spec_fields fl wd pr []"
  by (simp add: spec_fields_def)

lemma err_m_example:
  "format_lua h e [LStr ''err: %m'', LStr ''unused'']
     = Inr [LStr (''err: '' @ cstr (strerror h e)), LTable [(1, LStr ''unused'')], LInt 1]"
proof -
  have sp: "spec_fields [] [] [] []" by (simp add: spec_fields_def)
  have l1: "plain_text ''err: ''" by (simp add: plain_text_def)
  have l2: "plain_text []" by (simp add: plain_text_def)
  from format_lua_m_stars[OF sp l1 l2, where ns = "[]" and h = h and e = e
      and rest = "[LStr ''unused'']"] show ?thesis by simp
qed

lemma show_int_5: "show_int 5 = ''5''"
  by code_simp

lemma star_m_general:
  "format_arguments h e [LStr ''%*m'', LInt 5] 1 = Inr (2, [LStr ''%*m'', LInt 5, LStr (cstr (strerror h e))], e)"
  by (simp add: format_arguments_def loop_eval show_int_5)

lemma star_m_missing:
  "format_lua h e [LStr ''%*m''] = Inl (NotEnoughArgs ''%*m'')"
  by (simp add: format_lua_def format_arguments_def loop_eval)






end
